theory Spec2Isabelle
  imports Complex_Main "HOL-Library.Sublist"
begin

section \<open>Python values used by \<open>perf_stats.py\<close>\<close>

text \<open>
  The only call of the module that can raise on a missing key is \<open>dict.pop\<close>; writing a
  report can fail in \<open>open\<close>.
\<close>

datatype py_error = KeyError | OSError

subsection \<open>Text\<close>

text \<open>\<open>str(n)\<close> of a non-negative integer: its decimal digits.\<close>

definition digit_char :: "nat \<Rightarrow> char" where
  "digit_char d = ''0123456789'' ! d"

fun str_nat :: "nat \<Rightarrow> string" where
  "str_nat n = (if n < 10 then [digit_char n] else str_nat (n div 10) @ [digit_char (n mod 10)])"

declare str_nat.simps [simp del]



subsection \<open>Floating point\<close>

text \<open>
  A Python \<open>float\<close> is an IEEE 754 binary64 number, and \<open>+\<close>, \<open>-\<close>, \<open>*\<close>, \<open>/\<close> return the
  exact result rounded to the nearest such number, ties to the even significand. A finite
  float is a rational number, so floats are modelled by the reals they denote and every
  arithmetic operation of the source is followed by a rounding function \<open>rnd\<close>, a parameter
  of the functions below: \<open>b64\<close> is the rounding of CPython, \<open>exact\<close> (no rounding) gives the
  real-number reading of the statistics.

  \<open>b64\<close> keeps 53 significant bits. The exponent is not bounded here: overflow to
  infinity, gradual underflow, NaN and the sign of zero are outside the model.
\<close>

definition round_half_even :: "real \<Rightarrow> int" where
  "round_half_even x =
     (let f = \<lfloor>x\<rfloor>; r = x - of_int f
      in if r < 1 / 2 then f else if 1 / 2 < r then f + 1 else if even f then f else f + 1)"

function ilog2_up :: "real \<Rightarrow> int" where
  "ilog2_up a = (if 2 \<le> a then ilog2_up (a / 2) + 1 else 0)"
  by pat_completeness auto
termination
proof (relation "measure (\<lambda>a. nat \<lceil>a\<rceil>)")
  show "wf (measure (\<lambda>a::real. nat \<lceil>a\<rceil>))" by simp
next
  fix a :: real
  assume a: "2 \<le> a"
  have "\<lceil>a / 2\<rceil> \<le> \<lceil>a - 1\<rceil>" using a by (intro ceiling_mono) simp
  then have "\<lceil>a / 2\<rceil> < \<lceil>a\<rceil>" by simp
  moreover have "0 < \<lceil>a\<rceil>" using a by simp
  ultimately show "(a / 2, a) \<in> measure (\<lambda>a. nat \<lceil>a\<rceil>)" by simp
qed

function ilog2_down :: "real \<Rightarrow> int" where
  "ilog2_down a = (if 0 < a \<and> a < 1 then ilog2_down (a * 2) - 1 else 0)"
  by pat_completeness auto
termination
proof (relation "measure (\<lambda>a. nat \<lceil>1 / a\<rceil>)")
  show "wf (measure (\<lambda>a::real. nat \<lceil>1 / a\<rceil>))" by simp
next
  fix a :: real
  assume a: "0 < a \<and> a < 1"
  then have b: "1 < 1 / a" by simp
  have "\<lceil>1 / (a * 2)\<rceil> < \<lceil>1 / a\<rceil>"
  proof (cases "2 \<le> 1 / a")
    case True
    have "1 / (a * 2) = (1 / a) / 2" by simp
    also have "\<dots> \<le> 1 / a - 1" using True by simp
    finally have "\<lceil>1 / (a * 2)\<rceil> \<le> \<lceil>1 / a - 1\<rceil>" by (rule ceiling_mono)
    then show ?thesis by simp
  next
    case False
    have "1 / (a * 2) = (1 / a) / 2" by simp
    also have "\<dots> \<le> 1" using False by simp
    finally have "\<lceil>1 / (a * 2)\<rceil> \<le> 1" by simp
    moreover have "1 < \<lceil>1 / a\<rceil>" using b by (simp add: less_ceiling_iff)
    ultimately show ?thesis by linarith
  qed
  moreover have "0 < \<lceil>1 / a\<rceil>" using a by simp
  ultimately show "(a * 2, a) \<in> measure (\<lambda>a. nat \<lceil>1 / a\<rceil>)" by simp
qed

declare ilog2_up.simps [simp del] ilog2_down.simps [simp del]

text \<open>For \<open>0 < a\<close>: the integer \<open>e\<close> with \<open>2 ^ e \<le> a < 2 ^ (e + 1)\<close>.\<close>

definition ilog2 :: "real \<Rightarrow> int" where
  "ilog2 a = (if 1 \<le> a then ilog2_up a else ilog2_down a)"

definition pow2 :: "int \<Rightarrow> real" where
  "pow2 e = (if 0 \<le> e then 2 ^ nat e else 1 / 2 ^ nat (- e))"

definition b64 :: "real \<Rightarrow> real" where
  "b64 x =
     (if x = 0 then 0
      else let ulp = pow2 (ilog2 \<bar>x\<bar> - 52)
           in sgn x * (of_int (round_half_even (\<bar>x\<bar> / ulp)) * ulp))"

definition exact :: "real \<Rightarrow> real" where
  "exact x = x"


section \<open>The recorder: \<open>PerfStats\<close>\<close>

subsection \<open>State\<close>

text \<open>
  \<open>_data\<close> is a \<open>defaultdict\<close> of \<open>defaultdict(list)\<close>: category, then tag, then the list of
  samples. A Python dictionary iterates in insertion order and the report iterates it, so it
  is an association list, a new key going to the end. \<open>_start_times\<close> is never iterated: a
  map. The singleton has one instance, created enabled and empty.
\<close>

record state =
  data :: "(string \<times> (string \<times> real list) list) list"
  start_times :: "string \<rightharpoonup> real"
  enabled :: bool

definition fresh :: state where
  "fresh = \<lparr>data = [], start_times = Map.empty, enabled = True\<rparr>"

text \<open>
  \<open>d[k]\<close> on a \<open>defaultdict\<close> followed by an update in place of the value found: a missing
  key is first inserted with the default value.
\<close>

fun dd_update :: "'k \<Rightarrow> 'v \<Rightarrow> ('v \<Rightarrow> 'v) \<Rightarrow> ('k \<times> 'v) list \<Rightarrow> ('k \<times> 'v) list" where
  "dd_update k dflt f [] = [(k, f dflt)]"
| "dd_update k dflt f ((k', v) # kvs) =
     (if k' = k then (k', f v) # kvs else (k', v) # dd_update k dflt f kvs)"

text \<open>\<open>self._data[category][tag].append(x)\<close>\<close>

definition append_sample ::
  "string \<Rightarrow> string \<Rightarrow> real \<Rightarrow> (string \<times> (string \<times> real list) list) list
     \<Rightarrow> (string \<times> (string \<times> real list) list) list" where
  "append_sample category tag x d = dd_update category [] (dd_update tag [] (\<lambda>vs. vs @ [x])) d"

text \<open>The samples recorded under a category and tag (none when the bucket does not exist).\<close>

definition bucket :: "state \<Rightarrow> string \<Rightarrow> string \<Rightarrow> real list" where
  "bucket s category tag =
     (case map_of (data s) category of
        None \<Rightarrow> []
      | Some tags \<Rightarrow> (case map_of tags tag of None \<Rightarrow> [] | Some vs \<Rightarrow> vs))"

text \<open>\<open>d.pop(k)\<close> raises \<open>KeyError\<close> when the key is missing.\<close>

definition dict_pop :: "'k \<Rightarrow> ('k \<rightharpoonup> 'v) \<Rightarrow> py_error + ('v \<times> ('k \<rightharpoonup> 'v))" where
  "dict_pop k m = (case m k of None \<Rightarrow> Inl KeyError | Some v \<Rightarrow> Inr (v, m(k := None)))"

subsection \<open>Operations\<close>

definition enable :: "state \<Rightarrow> state" where
  "enable s = s\<lparr>enabled := True\<rparr>"

definition disable :: "state \<Rightarrow> state" where
  "disable s = s\<lparr>enabled := False\<rparr>"

definition init :: "state \<Rightarrow> state" where
  "init s = s\<lparr>data := [], start_times := Map.empty\<rparr>"

definition deinit :: "state \<Rightarrow> state" where
  "deinit s = init s"

text \<open>
  The key of \<open>start_record\<close> is the f-string
  \<open>{category}::{tag}::{threading.get_ident()}::{time.perf_counter()}\<close>. The thread identifier
  \<open>ident\<close> is a natural number. \<open>stamp\<close> is the text of the clock reading taken for the
  key: Python writes a float as the shortest decimal that reads back as the same float, so
  two readings have the same text exactly when they are equal, and the text has no colon.
\<close>

definition make_key :: "string \<Rightarrow> string \<Rightarrow> nat \<Rightarrow> string \<Rightarrow> string" where
  "make_key category tag ident stamp =
     category @ ''::'' @ tag @ ''::'' @ str_nat ident @ ''::'' @ stamp"

text \<open>
  \<open>start_record\<close> reads the clock twice: once for the key (\<open>stamp\<close>) and once, under the
  lock, for the stored start time (\<open>now\<close>). It returns the key, or \<open>None\<close> when disabled.
\<close>

definition start_record ::
  "string \<Rightarrow> string \<Rightarrow> nat \<Rightarrow> string \<Rightarrow> real \<Rightarrow> state \<Rightarrow> string option \<times> state" where
  "start_record category tag ident stamp now s =
     (if \<not> enabled s then (None, s)
      else let key = make_key category tag ident stamp
           in (Some key, s\<lparr>start_times := (start_times s)(key \<mapsto> now)\<rparr>))"

text \<open>
  \<open>end_record\<close>: \<open>end_time\<close> is the clock reading taken on entry. In
  \<open>if key and key in self._start_times\<close> the key \<open>None\<close> and the empty string count as
  false; the \<open>else\<close> branch of the source is \<open>pass\<close>.
\<close>

definition end_record ::
  "(real \<Rightarrow> real) \<Rightarrow> string \<Rightarrow> string \<Rightarrow> string option \<Rightarrow> real \<Rightarrow> state \<Rightarrow> py_error + state" where
  "end_record rnd category tag key end_time s =
     (if \<not> enabled s then Inr s
      else case key of
        None \<Rightarrow> Inr s
      | Some k \<Rightarrow>
          if k \<noteq> [] \<and> k \<in> dom (start_times s) then
            (case dict_pop k (start_times s) of
               Inl e \<Rightarrow> Inl e
             | Inr (start_time, rest) \<Rightarrow>
                 let elapsed = rnd (end_time - start_time)
                 in Inr (s\<lparr>start_times := rest,
                           data := append_sample category tag elapsed (data s)\<rparr>))
          else Inr s)"

definition record_value :: "string \<Rightarrow> string \<Rightarrow> real \<Rightarrow> state \<Rightarrow> state" where
  "record_value category tag elapsed_seconds s =
     (if \<not> enabled s then s
      else s\<lparr>data := append_sample category tag elapsed_seconds (data s)\<rparr>)"

subsection \<open>Statistics\<close>

record stat =
  count :: nat
  min_val :: real
  max_val :: real
  avg_filtered :: real
  avg_raw :: real

text \<open>\<open>sum(values)\<close>: the samples added one after the other, starting from 0.\<close>

definition py_sum :: "(real \<Rightarrow> real) \<Rightarrow> real list \<Rightarrow> real" where
  "py_sum rnd values = foldl (\<lambda>acc x. rnd (acc + x)) 0 values"

text \<open>
  The body of the loop over the tags of a category: \<open>None\<close> is the \<open>continue\<close> taken for
  an empty list, so that \<open>min\<close> and \<open>max\<close> only see a first element \<open>v\<close> and the rest.
\<close>

fun tag_stats :: "(real \<Rightarrow> real) \<Rightarrow> real list \<Rightarrow> stat option" where
  "tag_stats rnd [] = None"
| "tag_stats rnd (v # vs) =
     (let values = v # vs;
          count = length values;
          min_val = fold min vs v;
          max_val = fold max vs v;
          total = py_sum rnd values;
          avg_val = (if count > 2
                     then let filtered_sum = rnd (rnd (total - min_val) - max_val)
                          in rnd (filtered_sum / real (count - 2))
                     else rnd (total / real count))
      in Some \<lparr>count = count, min_val = min_val, max_val = max_val,
                avg_filtered = avg_val, avg_raw = rnd (total / real count)\<rparr>)"

definition cat_result :: "(real \<Rightarrow> real) \<Rightarrow> (string \<times> real list) list \<Rightarrow> (string \<times> stat) list" where
  "cat_result rnd tags =
     List.map_filter (\<lambda>(tag, values). map_option (Pair tag) (tag_stats rnd values)) tags"

text \<open>
  \<open>get_stats\<close> returns two shapes: with no category (or an empty one, which is false in
  \<open>if category\<close>) the statistics of every category, otherwise those of the tags of the one
  category, empty when it has no data.
\<close>

datatype stats_result =
  AllStats "(string \<times> (string \<times> stat) list) list"
| CatStats "(string \<times> stat) list"

definition all_stats :: "(real \<Rightarrow> real) \<Rightarrow> state \<Rightarrow> (string \<times> (string \<times> stat) list) list" where
  "all_stats rnd s = map (\<lambda>(cat, tags). (cat, cat_result rnd tags)) (data s)"

definition get_stats :: "(real \<Rightarrow> real) \<Rightarrow> string option \<Rightarrow> state \<Rightarrow> stats_result" where
  "get_stats rnd category s =
     (case category of
        None \<Rightarrow> AllStats (all_stats rnd s)
      | Some c \<Rightarrow>
          if c = [] then AllStats (all_stats rnd s)
          else (case map_of (data s) c of
                  None \<Rightarrow> CatStats []
                | Some tags \<Rightarrow> CatStats (cat_result rnd tags)))"

subsection \<open>Report\<close>







subsection \<open>Sequences of calls\<close>

text \<open>
  A call of the recorder together with what the environment supplies to it: the thread
  identifier and the clock readings.
\<close>

datatype op =
  Enable
| Disable
| Init
| Deinit
| StartRecord string string nat string real
| EndRecord string string "string option" real
| RecordValue string string real

text \<open>The value returned by the call (only \<open>start_record\<close> returns one) and the new state.\<close>

fun step :: "(real \<Rightarrow> real) \<Rightarrow> op \<Rightarrow> state \<Rightarrow> py_error + (string option \<times> state)" where
  "step rnd Enable s = Inr (None, enable s)"
| "step rnd Disable s = Inr (None, disable s)"
| "step rnd Init s = Inr (None, init s)"
| "step rnd Deinit s = Inr (None, deinit s)"
| "step rnd (StartRecord category tag ident stamp now) s =
     Inr (start_record category tag ident stamp now s)"
| "step rnd (EndRecord category tag key end_time) s =
     (case end_record rnd category tag key end_time s of
        Inl e \<Rightarrow> Inl e
      | Inr s' \<Rightarrow> Inr (None, s'))"
| "step rnd (RecordValue category tag elapsed_seconds) s =
     Inr (None, record_value category tag elapsed_seconds s)"

text \<open>
  Running the calls in order stops at the first exception; the result carries the tokens
  that \<open>start_record\<close> returned.
\<close>

fun run :: "(real \<Rightarrow> real) \<Rightarrow> op list \<Rightarrow> state \<Rightarrow> py_error + (string list \<times> state)" where
  "run rnd [] s = Inr ([], s)"
| "run rnd (x # xs) s =
     (case step rnd x s of
        Inl e \<Rightarrow> Inl e
      | Inr (r, s') \<Rightarrow>
          (case run rnd xs s' of
             Inl e \<Rightarrow> Inl e
           | Inr (toks, s'') \<Rightarrow> Inr ((case r of None \<Rightarrow> [] | Some k \<Rightarrow> [k]) @ toks, s'')))"

text \<open>The clock readings of a sequence of calls, in the order in which they are taken.\<close>

fun clock_readings :: "op list \<Rightarrow> real list" where
  "clock_readings [] = []"
| "clock_readings (StartRecord category tag ident stamp now # xs) = now # clock_readings xs"
| "clock_readings (EndRecord category tag key end_time # xs) = end_time # clock_readings xs"
| "clock_readings (x # xs) = clock_readings xs"

text \<open>The durations submitted through \<open>record_value\<close>.\<close>

fun submitted :: "op list \<Rightarrow> real list" where
  "submitted [] = []"
| "submitted (RecordValue category tag elapsed_seconds # xs) = elapsed_seconds # submitted xs"
| "submitted (x # xs) = submitted xs"

text \<open>Every sample of every bucket.\<close>

definition samples :: "state \<Rightarrow> real set" where
  "samples s = (\<Union>(cat, tags) \<in> set (data s). \<Union>(tag, vs) \<in> set tags. set vs)"

subsection \<open>Threads using \<open>PerfTimer\<close>\<close>

text \<open>
  A thread that runs \<open>with PerfTimer(category, tag): ...\<close> a number of times is either
  between two timers, with the number of timers still to run, or inside one, holding the
  key that \<open>__enter__\<close> received from \<open>start_record\<close>. Its next call of the recorder is
  \<open>start_record\<close> in the first case and, from \<open>__exit__\<close>, \<open>end_record\<close> with the held key in
  the second.
\<close>

datatype worker = Idle nat | Inside "string option" nat

fun worker_step ::
  "(real \<Rightarrow> real) \<Rightarrow> string \<Rightarrow> string \<Rightarrow> nat \<Rightarrow> string \<Rightarrow> real \<Rightarrow> worker \<Rightarrow> state
     \<Rightarrow> py_error + (worker \<times> state)" where
  "worker_step rnd category tag ident stamp now (Idle 0) s = Inr (Idle 0, s)"
| "worker_step rnd category tag ident stamp now (Idle (Suc n)) s =
     (case start_record category tag ident stamp now s of (key, s') \<Rightarrow> Inr (Inside key n, s'))"
| "worker_step rnd category tag ident stamp now (Inside key n) s =
     (case end_record rnd category tag key now s of
        Inl e \<Rightarrow> Inl e
      | Inr s' \<Rightarrow> Inr (Idle n, s'))"

text \<open>
  Every access of the recorder to its state is made under the one lock, one access per
  call, so threads interleave call by call. A schedule names, step by step, the thread
  that makes its next call and the clock readings that call obtains.
\<close>

fun run_threads ::
  "(real \<Rightarrow> real) \<Rightarrow> string \<Rightarrow> string \<Rightarrow> (nat \<times> string \<times> real) list \<Rightarrow> (nat \<Rightarrow> worker) \<Rightarrow> state
     \<Rightarrow> py_error + ((nat \<Rightarrow> worker) \<times> state)" where
  "run_threads rnd category tag [] ws s = Inr (ws, s)"
| "run_threads rnd category tag ((ident, stamp, now) # sched) ws s =
     (case worker_step rnd category tag ident stamp now (ws ident) s of
        Inl e \<Rightarrow> Inl e
      | Inr (w, s') \<Rightarrow> run_threads rnd category tag sched (ws(ident := w)) s')"

text \<open>The timers that a thread has still to complete, the one it is inside included.\<close>

fun remaining :: "worker \<Rightarrow> nat" where
  "remaining (Idle n) = n"
| "remaining (Inside key n) = Suc n"

text \<open>The calls of the recorder that a thread has still to make.\<close>

fun calls_left :: "worker \<Rightarrow> nat" where
  "calls_left (Idle n) = 2 * n"
| "calls_left (Inside key n) = Suc (2 * n)"

subsection \<open>The trimmed mean as the specification words it\<close>

text \<open>
  With more than two samples: remove one occurrence of the minimum and one occurrence of the
  maximum and average the remaining samples; otherwise the mean of all samples.
\<close>

definition trimmed_mean_spec :: "real list \<Rightarrow> real" where
  "trimmed_mean_spec values =
     (if length values > 2
      then sum_list (remove1 (Max (set values)) (remove1 (Min (set values)) values))
           / real (length values - 2)
      else sum_list values / real (length values))"

section \<open>Disabling and resetting\<close>

lemma end_record_disabled: "\<not> enabled s \<Longrightarrow> end_record rnd category tag key end_time s = Inr s"
  by (simp add: end_record_def)

lemma step_disabled:
  assumes "\<not> enabled s" and "x \<noteq> Enable" and "x \<noteq> Init" and "x \<noteq> Deinit"
  shows "step rnd x s = Inr (None, s)"
  using assms
  by (cases x) (simp_all add: disable_def start_record_def end_record_def record_value_def)

lemma run_disabled:
  assumes "\<not> enabled s" and "Enable \<notin> set ops" and "Init \<notin> set ops" and "Deinit \<notin> set ops"
  shows "run rnd ops s = Inr ([], s)"
  using assms
proof (induction ops)
  case Nil
  show ?case by simp
next
  case (Cons x xs)
  then have "step rnd x s = Inr (None, s)" by (intro step_disabled) auto
  with Cons show ?case by simp
qed

text \<open>
  Claim C5. While the recorder is disabled, \<open>start_record\<close> returns \<open>None\<close> and
  \<open>start_record\<close>, \<open>end_record\<close> and \<open>record_value\<close> return the state they were given, the
  buckets and the pending starts included; so does every sequence of calls that does not
  enable or reset the recorder. \<open>enable\<close> and \<open>disable\<close> set the flag and leave the buckets
  and the pending starts as they are.
\<close>

theorem disabled_calls_change_nothing:
  "(\<not> enabled s \<longrightarrow>
      start_record category tag ident stamp now s = (None, s) \<and>
      end_record rnd category tag key now s = Inr s \<and>
      record_value category tag elapsed_seconds s = s \<and>
      (Enable \<notin> set ops \<and> Init \<notin> set ops \<and> Deinit \<notin> set ops \<longrightarrow> run rnd ops s = Inr ([], s))) \<and>
   data (enable s) = data s \<and> start_times (enable s) = start_times s \<and> enabled (enable s) \<and>
   data (disable s) = data s \<and> start_times (disable s) = start_times s \<and> \<not> enabled (disable s)"
  using run_disabled [of s ops rnd]
  by (simp add: start_record_def end_record_def record_value_def enable_def disable_def)

theorem disabled_calls_change_nothing_witness:
  "\<not> enabled (disable (record_value ''c'' ''t'' 1 fresh)) \<and>
   run b64 [StartRecord ''c'' ''t'' 7 ''1.5'' 2, EndRecord ''c'' ''t'' (Some ''k'') 3,
            RecordValue ''c'' ''t'' 4, Disable]
     (disable (record_value ''c'' ''t'' 1 fresh)) = Inr ([], disable (record_value ''c'' ''t'' 1 fresh)) \<and>
   start_record ''c'' ''t'' 7 ''1.5'' 2 (disable (record_value ''c'' ''t'' 1 fresh))
     = (None, disable (record_value ''c'' ''t'' 1 fresh)) \<and>
   data (disable (record_value ''c'' ''t'' 1 fresh)) = [(''c'', [(''t'', [1])])]"
proof -
  let ?s = "disable (record_value ''c'' ''t'' 1 fresh)"
  let ?ops = "[StartRecord ''c'' ''t'' 7 ''1.5'' 2, EndRecord ''c'' ''t'' (Some ''k'') 3,
               RecordValue ''c'' ''t'' 4, Disable]"
  have off: "\<not> enabled ?s" by (simp add: disable_def)
  have ops: "Enable \<notin> set ?ops \<and> Init \<notin> set ?ops \<and> Deinit \<notin> set ?ops" by simp
  have d: "data ?s = [(''c'', [(''t'', [1])])]"
    by (simp add: disable_def record_value_def fresh_def append_sample_def)
  from disabled_calls_change_nothing [of ?s "''c''" "''t''" 7 "''1.5''" 2 b64 "Some ''k''" 4 ?ops] off ops d
  show ?thesis by blast
qed

text \<open>
  Claim C8. \<open>deinit\<close> is \<open>init\<close>: from every state both give the same state, with no bucket
  and no pending start left (the enabled flag is kept), so that \<open>get_stats\<close> for all
  categories is empty; neither raises.
\<close>

theorem deinit_is_init:
  "deinit s = init s \<and>
   data (init s) = [] \<and> start_times (init s) = Map.empty \<and> enabled (init s) = enabled s \<and>
   get_stats rnd None (init s) = AllStats [] \<and>
   (\<forall>category tag. bucket (init s) category tag = []) \<and>
   step rnd Init s = Inr (None, init s) \<and> step rnd Deinit s = Inr (None, init s)"
  by (simp add: deinit_def init_def get_stats_def all_stats_def bucket_def)

section \<open>Buckets, pending starts and keys\<close>

subsection \<open>Buckets\<close>

lemma map_of_dd_update:
  "map_of (dd_update k dflt f kvs) k' =
     (if k' = k then Some (f (case map_of kvs k of None \<Rightarrow> dflt | Some v \<Rightarrow> v)) else map_of kvs k')"
  by (induction kvs) auto

lemma bucket_append_sample:
  "bucket (s\<lparr>data := append_sample category tag x (data s)\<rparr>) category' tag' =
     (if category' = category \<and> tag' = tag then bucket s category tag @ [x]
      else bucket s category' tag')"
  by (auto simp: bucket_def append_sample_def map_of_dd_update split: option.splits)

lemma bucket_start_times_update [simp]:
  "bucket (s\<lparr>start_times := m\<rparr>) category tag = bucket s category tag"
  by (simp add: bucket_def)

subsection \<open>end_record\<close>

lemma end_record_hit:
  assumes "enabled s" and "k \<noteq> []" and "start_times s k = Some t0"
  shows "end_record rnd category tag (Some k) end_time s =
           Inr (s\<lparr>start_times := (start_times s)(k := None),
                   data := append_sample category tag (rnd (end_time - t0)) (data s)\<rparr>)"
  using assms by (simp add: end_record_def dict_pop_def dom_def)

lemma end_record_miss:
  "k \<notin> dom (start_times s) \<Longrightarrow> end_record rnd category tag (Some k) end_time s = Inr s"
  by (simp add: end_record_def)

lemma end_record_None: "end_record rnd category tag None end_time s = Inr s"
  by (simp add: end_record_def)

lemma end_record_empty_key: "end_record rnd category tag (Some []) end_time s = Inr s"
  by (simp add: end_record_def)

lemma end_record_never_raises: "\<exists>s'. end_record rnd category tag key end_time s = Inr s'"
  by (auto simp: end_record_def dict_pop_def split: option.splits)

lemma end_record_enabled:
  "end_record rnd category tag key end_time s = Inr s' \<Longrightarrow> enabled s' = enabled s"
  by (auto simp: end_record_def dict_pop_def split: option.splits if_splits)

lemma end_record_dom:
  "end_record rnd category tag key end_time s = Inr s' \<Longrightarrow> dom (start_times s') \<subseteq> dom (start_times s)"
  by (auto simp: end_record_def dict_pop_def split: option.splits if_splits)

subsection \<open>Keys\<close>

lemma digit_char_cases:
  "d < 10 \<Longrightarrow> d = 0 \<or> d = 1 \<or> d = 2 \<or> d = 3 \<or> d = 4 \<or> d = 5 \<or> d = 6 \<or> d = 7 \<or> d = 8 \<or> d = (9::nat)"
  by arith

lemma digit_char_not_colon: "d < 10 \<Longrightarrow> CHR '':'' \<noteq> digit_char d"
  using digit_char_cases [of d] by (auto simp: digit_char_def)

lemma digit_char_inj: "a < 10 \<Longrightarrow> b < 10 \<Longrightarrow> digit_char a = digit_char b \<Longrightarrow> a = b"
  using digit_char_cases [of a] digit_char_cases [of b] by (auto simp: digit_char_def)

lemma str_nat_no_colon: "CHR '':'' \<notin> set (str_nat n)"
proof (induction n rule: str_nat.induct)
  case (1 n)
  show ?case
  proof (cases "n < 10")
    case True
    then show ?thesis by (simp add: str_nat.simps [of n] digit_char_not_colon)
  next
    case False
    with 1 show ?thesis by (simp add: str_nat.simps [of n] digit_char_not_colon)
  qed
qed

lemma str_nat_nonempty: "str_nat n \<noteq> []"
  by (subst str_nat.simps) simp

lemma str_nat_inj: "str_nat m = str_nat n \<Longrightarrow> m = n"
proof (induction m arbitrary: n rule: str_nat.induct)
  case (1 m)
  show ?case
  proof (cases "m < 10")
    case m: True
    show ?thesis
    proof (cases "n < 10")
      case True
      with m 1(2) show ?thesis by (simp add: str_nat.simps [of m] str_nat.simps [of n] digit_char_inj)
    next
      case False
      with m 1(2) show ?thesis
        using str_nat_nonempty [of "n div 10"] by (simp add: str_nat.simps [of m] str_nat.simps [of n])
    qed
  next
    case m: False
    show ?thesis
    proof (cases "n < 10")
      case True
      with m 1(2) show ?thesis
        using str_nat_nonempty [of "m div 10"] by (simp add: str_nat.simps [of m] str_nat.simps [of n])
    next
      case False
      with m 1(2) have "str_nat (m div 10) = str_nat (n div 10)" and "digit_char (m mod 10) = digit_char (n mod 10)"
        by (simp_all add: str_nat.simps [of m] str_nat.simps [of n])
      with 1(1) m have "m div 10 = n div 10" and "m mod 10 = n mod 10"
        by (auto intro: digit_char_inj)
      then show ?thesis by (metis div_mult_mod_eq)
    qed
  qed
qed

lemma first_occurrence_split:
  "c \<notin> set xs \<Longrightarrow> c \<notin> set ys \<Longrightarrow> xs @ c # p = ys @ c # q \<Longrightarrow> xs = ys \<and> p = q"
proof (induction xs arbitrary: ys)
  case Nil
  then show ?case by (cases ys) auto
next
  case (Cons x xs)
  then show ?case by (cases ys) auto
qed

lemma last_occurrence_split:
  assumes "c \<notin> set xs" and "c \<notin> set ys" and "p @ c # xs = q @ c # ys"
  shows "p = q \<and> xs = ys"
proof -
  from assms(3) have "rev (p @ c # xs) = rev (q @ c # ys)" by simp
  then have "rev xs @ c # rev p = rev ys @ c # rev q" by simp
  with assms(1,2) have "rev xs = rev ys \<and> rev p = rev q"
    by (intro first_occurrence_split) auto
  then show ?thesis by simp
qed

lemma make_key_nonempty: "make_key category tag ident stamp \<noteq> []"
  by (simp add: make_key_def)

lemma make_key_same_labels:
  assumes "make_key category tag i1 st1 = make_key category tag i2 st2"
  shows "i1 = i2 \<and> st1 = st2"
proof -
  from assms have "str_nat i1 @ CHR '':'' # (CHR '':'' # st1) = str_nat i2 @ CHR '':'' # (CHR '':'' # st2)"
    by (simp add: make_key_def)
  then have "str_nat i1 = str_nat i2 \<and> CHR '':'' # st1 = CHR '':'' # st2"
    by (rule first_occurrence_split [OF str_nat_no_colon str_nat_no_colon])
  then show ?thesis by (simp add: str_nat_inj)
qed

lemma make_key_eq_iff:
  assumes "CHR '':'' \<notin> set st1" and "CHR '':'' \<notin> set st2"
  shows "make_key c1 t1 i1 st1 = make_key c2 t2 i2 st2 \<longleftrightarrow>
           c1 @ ''::'' @ t1 = c2 @ ''::'' @ t2 \<and> i1 = i2 \<and> st1 = st2"
proof
  assume eq: "make_key c1 t1 i1 st1 = make_key c2 t2 i2 st2"
  then have "(c1 @ ''::'' @ t1 @ ''::'' @ str_nat i1 @ '':'') @ CHR '':'' # st1 =
             (c2 @ ''::'' @ t2 @ ''::'' @ str_nat i2 @ '':'') @ CHR '':'' # st2"
    by (simp add: make_key_def)
  then have "c1 @ ''::'' @ t1 @ ''::'' @ str_nat i1 @ '':'' = c2 @ ''::'' @ t2 @ ''::'' @ str_nat i2 @ '':'' \<and> st1 = st2"
    by (rule last_occurrence_split [OF assms])
  then have a: "c1 @ ''::'' @ t1 @ ''::'' @ str_nat i1 @ '':'' = c2 @ ''::'' @ t2 @ ''::'' @ str_nat i2 @ '':''"
    and st: "st1 = st2" by simp_all
  from a have "(c1 @ ''::'' @ t1 @ '':'') @ CHR '':'' # str_nat i1 = (c2 @ ''::'' @ t2 @ '':'') @ CHR '':'' # str_nat i2"
    by simp
  then have "c1 @ ''::'' @ t1 @ '':'' = c2 @ ''::'' @ t2 @ '':'' \<and> str_nat i1 = str_nat i2"
    by (rule last_occurrence_split [OF str_nat_no_colon str_nat_no_colon])
  then have b: "c1 @ ''::'' @ t1 @ '':'' = c2 @ ''::'' @ t2 @ '':''" and i: "str_nat i1 = str_nat i2"
    by simp_all
  from b have "(c1 @ ''::'' @ t1) @ '':'' = (c2 @ ''::'' @ t2) @ '':''" by simp
  then have "c1 @ ''::'' @ t1 = c2 @ ''::'' @ t2" by (simp only: append_same_eq)
  with st i show "c1 @ ''::'' @ t1 = c2 @ ''::'' @ t2 \<and> i1 = i2 \<and> st1 = st2"
    by (simp add: str_nat_inj)
next
  assume "c1 @ ''::'' @ t1 = c2 @ ''::'' @ t2 \<and> i1 = i2 \<and> st1 = st2"
  then have "c1 @ CHR '':'' # CHR '':'' # t1 = c2 @ CHR '':'' # CHR '':'' # t2" and "i1 = i2" and "st1 = st2" by simp_all
  then have "(c1 @ CHR '':'' # CHR '':'' # t1) @ ''::'' @ str_nat i1 @ ''::'' @ st1 = (c2 @ CHR '':'' # CHR '':'' # t2) @ ''::'' @ str_nat i2 @ ''::'' @ st2"
    by simp
  then show "make_key c1 t1 i1 st1 = make_key c2 t2 i2 st2"
    by (simp add: make_key_def)
qed

subsection \<open>Sequences of calls never raise\<close>

lemma start_record_enabled:
  "enabled s \<Longrightarrow>
   start_record category tag ident stamp now s =
     (Some (make_key category tag ident stamp),
      s\<lparr>start_times := (start_times s)(make_key category tag ident stamp \<mapsto> now)\<rparr>)"
  by (simp add: start_record_def Let_def)

lemma step_never_raises: "\<exists>r s'. step rnd x s = Inr (r, s')"
proof (cases x)
  case (EndRecord category tag key end_time)
  then show ?thesis
    using end_record_never_raises [of rnd category tag key end_time s] by auto
qed simp_all

lemma run_never_raises: "\<exists>toks s'. run rnd ops s = Inr (toks, s')"
proof (induction ops arbitrary: s)
  case Nil
  show ?case by simp
next
  case (Cons x xs)
  obtain r s1 where 1: "step rnd x s = Inr (r, s1)" using step_never_raises by blast
  obtain toks s2 where 2: "run rnd xs s1 = Inr (toks, s2)" using Cons by blast
  from 1 2 show ?case by simp
qed

lemma step_dom:
  assumes "step rnd x s = Inr (r, s')"
  shows "dom (start_times s') \<subseteq> dom (start_times s) \<union> set_option r"
proof (cases x)
  case (StartRecord category tag ident stamp now)
  with assms show ?thesis by (auto simp: start_record_def Let_def split: if_splits)
next
  case (EndRecord category tag key end_time)
  with assms show ?thesis
    using end_record_dom [of rnd category tag key end_time s] by (auto split: sum.splits)
qed (use assms in \<open>auto simp: enable_def disable_def init_def deinit_def record_value_def split: if_splits\<close>)

lemma run_dom:
  "run rnd ops s = Inr (toks, s') \<Longrightarrow> dom (start_times s') \<subseteq> dom (start_times s) \<union> set toks"
proof (induction ops arbitrary: s toks s')
  case Nil
  then show ?case by simp
next
  case (Cons x xs)
  obtain r s1 where 1: "step rnd x s = Inr (r, s1)" using step_never_raises by blast
  obtain toks1 s2 where 2: "run rnd xs s1 = Inr (toks1, s2)" using run_never_raises by blast
  from 1 2 Cons.prems have eq: "toks = (case r of None \<Rightarrow> [] | Some k \<Rightarrow> [k]) @ toks1" "s' = s2"
    by simp_all
  from Cons.IH [OF 2] have "dom (start_times s2) \<subseteq> dom (start_times s1) \<union> set toks1" .
  moreover from step_dom [OF 1] have "dom (start_times s1) \<subseteq> dom (start_times s) \<union> set_option r" .
  ultimately show ?case using eq by (cases r) auto
qed

subsection \<open>Evaluations used by the examples\<close>

lemma b64_half: "b64 (1 / 2) = 1 / 2"
  by (simp add: b64_def ilog2_def ilog2_down.simps ilog2_up.simps pow2_def round_half_even_def Let_def)

lemma key_c_t: "make_key ''c'' ''t'' 7 ''1.5'' = ''c::t::7::1.5''"
  by (simp add: make_key_def str_nat.simps digit_char_def)

lemma key_a_x: "make_key ''a'' ''x'' 7 ''1.5'' = ''a::x::7::1.5''"
  by (simp add: make_key_def str_nat.simps digit_char_def)

section \<open>Pairing of \<open>start_record\<close> and \<open>end_record\<close>\<close>

subsection \<open>Consuming a token\<close>

text \<open>
  The \<open>end_record\<close> that records a sample removes its token from the pending starts, and
  a later \<open>end_record\<close> with the same token returns the state unchanged as long as no
  \<open>start_record\<close> has returned that token again. \<open>end_record\<close> with a token that no
  \<open>start_record\<close> has returned, or with \<open>None\<close>, returns the state unchanged. No
  \<open>end_record\<close> and no sequence of calls raises.
\<close>

lemma token_consumed_unless_reissued:
  "(enabled s \<and> k \<noteq> [] \<and> start_times s k = Some t0 \<longrightarrow>
      (\<exists>s'. end_record rnd category tag (Some k) end_time s = Inr s' \<and>
            k \<notin> dom (start_times s') \<and>
            bucket s' category tag = bucket s category tag @ [rnd (end_time - t0)] \<and>
            end_record rnd category2 tag2 (Some k) end_time2 s' = Inr s')) \<and>
   (k \<notin> dom (start_times s1) \<and> run rnd ops s1 = Inr (toks, s2) \<and> k \<notin> set toks \<longrightarrow>
      end_record rnd category tag (Some k) end_time s2 = Inr s2) \<and>
   (run rnd ops0 fresh = Inr (toks0, s0) \<and> k0 \<notin> set toks0 \<longrightarrow>
      end_record rnd category tag (Some k0) end_time s0 = Inr s0) \<and>
   end_record rnd category tag None end_time s = Inr s \<and>
   (\<exists>s'. end_record rnd category tag key end_time s = Inr s') \<and>
   (\<exists>toks' s'. run rnd ops s = Inr (toks', s'))"
proof (intro conjI impI)
  assume a: "enabled s \<and> k \<noteq> [] \<and> start_times s k = Some t0"
  let ?s' = "s\<lparr>start_times := (start_times s)(k := None),
                data := append_sample category tag (rnd (end_time - t0)) (data s)\<rparr>"
  from a have 1: "end_record rnd category tag (Some k) end_time s = Inr ?s'"
    by (simp add: end_record_hit)
  have 2: "k \<notin> dom (start_times ?s')" by simp
  have "bucket ?s' category tag = bucket (s\<lparr>data := append_sample category tag (rnd (end_time - t0)) (data s)\<rparr>) category tag"
    by (simp add: bucket_def)
  then have 3: "bucket ?s' category tag = bucket s category tag @ [rnd (end_time - t0)]"
    by (simp add: bucket_append_sample)
  from 2 have 4: "end_record rnd category2 tag2 (Some k) end_time2 ?s' = Inr ?s'"
    by (rule end_record_miss)
  from 1 2 3 4
  show "\<exists>s'. end_record rnd category tag (Some k) end_time s = Inr s' \<and>
            k \<notin> dom (start_times s') \<and>
            bucket s' category tag = bucket s category tag @ [rnd (end_time - t0)] \<and>
            end_record rnd category2 tag2 (Some k) end_time2 s' = Inr s'"
    by blast
next
  assume a: "k \<notin> dom (start_times s1) \<and> run rnd ops s1 = Inr (toks, s2) \<and> k \<notin> set toks"
  then have "k \<notin> dom (start_times s2)" using run_dom [of rnd ops s1 toks s2] by blast
  then show "end_record rnd category tag (Some k) end_time s2 = Inr s2" by (rule end_record_miss)
next
  assume a: "run rnd ops0 fresh = Inr (toks0, s0) \<and> k0 \<notin> set toks0"
  then have "k0 \<notin> dom (start_times s0)"
    using run_dom [of rnd ops0 fresh toks0 s0] by (auto simp: fresh_def)
  then show "end_record rnd category tag (Some k0) end_time s0 = Inr s0" by (rule end_record_miss)
next
  show "end_record rnd category tag None end_time s = Inr s" by (rule end_record_None)
next
  show "\<exists>s'. end_record rnd category tag key end_time s = Inr s'" by (rule end_record_never_raises)
next
  show "\<exists>toks' s'. run rnd ops s = Inr (toks', s')" by (rule run_never_raises)
qed

lemma b64_0: "b64 0 = 0"
  by (simp add: b64_def)

text \<open>
  Claim C4: every token is consumed by at most one \<open>end_record\<close>, and an \<open>end_record\<close>
  that follows the one that recorded a sample leaves every bucket unchanged. The code
  breaks this where \<open>start_record\<close> returns a token a second time, against its
  docstring, which promises a unique key. Thread 7 runs two timers one after the other,
  and the clock reads 1.5 until the second timer has started: both \<open>start_record\<close> calls
  return \<open>c::t::7::1.5\<close>. After the first \<open>end_record\<close> the token is consumed and the
  bucket holds one sample; the second \<open>end_record\<close> with this token appends another
  sample.
\<close>

theorem reissued_token_is_consumed_twice:
  "run b64 [StartRecord ''c'' ''t'' 7 ''1.5'' (3 / 2),
            EndRecord ''c'' ''t'' (Some ''c::t::7::1.5'') (3 / 2)] fresh
     = Inr ([''c::t::7::1.5''],
            \<lparr>data = [(''c'', [(''t'', [0])])], start_times = Map.empty, enabled = True\<rparr>) \<and>
   run b64 [StartRecord ''c'' ''t'' 7 ''1.5'' (3 / 2),
            EndRecord ''c'' ''t'' (Some ''c::t::7::1.5'') (3 / 2),
            StartRecord ''c'' ''t'' 7 ''1.5'' (3 / 2),
            EndRecord ''c'' ''t'' (Some ''c::t::7::1.5'') 2] fresh
     = Inr ([''c::t::7::1.5'', ''c::t::7::1.5''],
            \<lparr>data = [(''c'', [(''t'', [0, 1 / 2])])], start_times = Map.empty, enabled = True\<rparr>)"
  by (simp add: fresh_def start_record_def Let_def key_c_t end_record_def dict_pop_def
        append_sample_def b64_half b64_0)

subsection \<open>Category and tag of \<open>end_record\<close>\<close>

text \<open>
  Claim C2, as stated, fails: \<open>end_record\<close> never compares its category and tag with those
  given to \<open>start_record\<close>. A token started for \<open>(a, x)\<close> and ended with \<open>(b, y)\<close> is consumed
  and its sample is recorded under \<open>(b, y)\<close>.
\<close>

theorem mismatched_labels_are_recorded:
  "run b64 [StartRecord ''a'' ''x'' 7 ''1.5'' (3 / 2), EndRecord ''b'' ''y'' (Some ''a::x::7::1.5'') 2] fresh
     = Inr ([''a::x::7::1.5''],
            \<lparr>data = [(''b'', [(''y'', [1 / 2])])], start_times = Map.empty, enabled = True\<rparr>)"
  by (simp add: fresh_def start_record_def Let_def key_a_x end_record_def dict_pop_def append_sample_def b64_half)

text \<open>
  Claim C2, amended. \<open>end_record\<close> matches on the token alone: for a pending token created
  by \<open>start_record(category', tag')\<close>, \<open>end_record(category, tag, token)\<close> raises nothing,
  consumes the token and appends the elapsed time to the bucket of the category and tag of
  the \<open>end_record\<close> call, whether or not they are those of the \<open>start_record\<close> call; no other
  bucket changes.
\<close>

theorem end_record_matches_on_token_alone:
  assumes "enabled s"
  shows "\<exists>k s1 s2.
           start_record category' tag' ident stamp now s = (Some k, s1) \<and>
           end_record rnd category tag (Some k) end_time s1 = Inr s2 \<and>
           k \<notin> dom (start_times s2) \<and>
           bucket s2 category tag = bucket s category tag @ [rnd (end_time - now)] \<and>
           (\<forall>c t. (c, t) \<noteq> (category, tag) \<longrightarrow> bucket s2 c t = bucket s c t)"
proof -
  let ?k = "make_key category' tag' ident stamp"
  let ?s1 = "s\<lparr>start_times := (start_times s)(?k \<mapsto> now)\<rparr>"
  let ?s2 = "?s1\<lparr>start_times := (start_times ?s1)(?k := None),
                  data := append_sample category tag (rnd (end_time - now)) (data ?s1)\<rparr>"
  have 1: "start_record category' tag' ident stamp now s = (Some ?k, ?s1)"
    using assms by (rule start_record_enabled)
  have "enabled ?s1" and "?k \<noteq> []" and "start_times ?s1 ?k = Some now"
    using assms by (simp_all add: make_key_nonempty)
  then have 2: "end_record rnd category tag (Some ?k) end_time ?s1 = Inr ?s2"
    by (rule end_record_hit)
  have 3: "?k \<notin> dom (start_times ?s2)" by simp
  have eq: "bucket ?s2 c t = bucket (s\<lparr>data := append_sample category tag (rnd (end_time - now)) (data s)\<rparr>) c t" for c t
    by (simp add: bucket_def)
  have 4: "bucket ?s2 category tag = bucket s category tag @ [rnd (end_time - now)]"
    unfolding eq by (simp add: bucket_append_sample)
  have 5: "\<forall>c t. (c, t) \<noteq> (category, tag) \<longrightarrow> bucket ?s2 c t = bucket s c t"
    unfolding eq by (simp add: bucket_append_sample)
  from 1 2 3 4 5 show ?thesis by blast
qed

theorem end_record_matches_on_token_alone_witness:
  "enabled fresh \<and>
   (\<exists>k s1 s2.
      start_record ''a'' ''x'' 7 ''1.5'' (3 / 2) fresh = (Some k, s1) \<and>
      end_record b64 ''b'' ''y'' (Some k) 2 s1 = Inr s2 \<and>
      k \<notin> dom (start_times s2) \<and>
      bucket s2 ''b'' ''y'' = [1 / 2] \<and> bucket s2 ''a'' ''x'' = [])"
proof -
  have e: "enabled fresh" by (simp add: fresh_def)
  have b: "bucket fresh c t = []" for c t by (simp add: bucket_def fresh_def)
  from end_record_matches_on_token_alone [OF e, of "''a''" "''x''" 7 "''1.5''" "3 / 2" b64 "''b''" "''y''" 2]
  obtain k s1 s2 where
    "start_record ''a'' ''x'' 7 ''1.5'' (3 / 2) fresh = (Some k, s1)"
    "end_record b64 ''b'' ''y'' (Some k) 2 s1 = Inr s2"
    "k \<notin> dom (start_times s2)"
    "bucket s2 ''b'' ''y'' = bucket fresh ''b'' ''y'' @ [b64 (2 - 3 / 2)]"
    "\<forall>c t. (c, t) \<noteq> (''b'', ''y'') \<longrightarrow> bucket s2 c t = bucket fresh c t"
    by blast
  moreover from this have "bucket s2 ''a'' ''x'' = bucket fresh ''a'' ''x''" by simp
  ultimately show ?thesis using e b by (auto simp: b64_half)
qed


subsection \<open>Tokens of \<open>start_record\<close>\<close>

text \<open>
  What the composite key gives: two \<open>start_record\<close> calls made while enabled return
  different tokens whenever they are made by different threads or read different clock
  values (the text of a clock value has no colon), whatever their categories and tags; the
  second call then leaves the pending start of the first as it is.
\<close>

lemma tokens_differ_by_thread_or_reading:
  assumes "enabled s" and "enabled s'"
    and "CHR '':'' \<notin> set stamp1" and "CHR '':'' \<notin> set stamp2"
    and "ident1 \<noteq> ident2 \<or> stamp1 \<noteq> stamp2"
  shows "fst (start_record category1 tag1 ident1 stamp1 now1 s) = Some (make_key category1 tag1 ident1 stamp1) \<and>
         fst (start_record category2 tag2 ident2 stamp2 now2 s') = Some (make_key category2 tag2 ident2 stamp2) \<and>
         make_key category1 tag1 ident1 stamp1 \<noteq> make_key category2 tag2 ident2 stamp2 \<and>
         start_times (snd (start_record category2 tag2 ident2 stamp2 now2 s'))
             (make_key category1 tag1 ident1 stamp1)
           = start_times s' (make_key category1 tag1 ident1 stamp1) \<and>
         start_times (snd (start_record category2 tag2 ident2 stamp2 now2 s'))
             (make_key category2 tag2 ident2 stamp2) = Some now2"
proof -
  have ne: "make_key category1 tag1 ident1 stamp1 \<noteq> make_key category2 tag2 ident2 stamp2"
    using assms(3-5) by (simp add: make_key_eq_iff)
  show ?thesis
    using ne by (simp add: start_record_enabled assms(1,2))
qed

text \<open>
  Claim C3: any two \<open>start_record\<close> calls made while enabled return distinct tokens, so
  that no pending start overwrites another; the docstring of \<open>start_record\<close> promises a
  unique key. The code breaks this: the key has no counter and no random part, and two
  calls of one thread with the same category and tag that read the same clock value return
  the same token. Here thread 7 reads 1.5 twice: the second pending start replaces the
  first, and of the two \<open>end_record\<close> calls only one records a sample.
\<close>

theorem same_thread_same_reading_same_token:
  "fst (start_record ''c'' ''t'' 7 ''1.5'' (3 / 2) fresh) = Some ''c::t::7::1.5'' \<and>
   fst (start_record ''c'' ''t'' 7 ''1.5'' (3 / 2) (snd (start_record ''c'' ''t'' 7 ''1.5'' (3 / 2) fresh)))
     = Some ''c::t::7::1.5'' \<and>
   run b64 [StartRecord ''c'' ''t'' 7 ''1.5'' (3 / 2), StartRecord ''c'' ''t'' 7 ''1.5'' (3 / 2),
            EndRecord ''c'' ''t'' (Some ''c::t::7::1.5'') 2,
            EndRecord ''c'' ''t'' (Some ''c::t::7::1.5'') 2] fresh
     = Inr ([''c::t::7::1.5'', ''c::t::7::1.5''],
            \<lparr>data = [(''c'', [(''t'', [1 / 2])])], start_times = Map.empty, enabled = True\<rparr>)"
  by (simp add: fresh_def start_record_def Let_def key_c_t end_record_def dict_pop_def
        append_sample_def b64_half)

section \<open>Statistics of a bucket\<close>

subsection \<open>Evaluations in binary64\<close>

text \<open>
  A decimal literal of the source denotes the nearest float: \<open>0.001\<close> is \<open>b64 (1 / 1000)\<close>.
  On the lists evaluated here the sum from left to right and the compensated sum of
  CPython 3.12 give the same float.
\<close>

lemmas b64_eval = b64_def ilog2_def ilog2_down.simps ilog2_up.simps pow2_def round_half_even_def Let_def

lemma lit_0001: "b64 (1 / 1000) = 1152921504606847 / 1152921504606846976" by (simp add: b64_eval)
lemma lit_0002: "b64 (2 / 1000) = 1152921504606847 / 576460752303423488" by (simp add: b64_eval)
lemma lit_0003: "b64 (3 / 1000) = 3458764513820541 / 1152921504606846976" by (simp add: b64_eval)
lemma lit_0010: "b64 (10 / 1000) = 5764607523034235 / 576460752303423488" by (simp add: b64_eval)
lemma lit_00025: "b64 (1 / 400) = 5764607523034235 / 2305843009213693952" by (simp add: b64_eval)
lemma lit_0004: "b64 (4 / 1000) = 1152921504606847 / 288230376151711744" by (simp add: b64_eval)
lemma lit_01: "b64 (1 / 10) = 3602879701896397 / 36028797018963968" by (simp add: b64_eval)

lemma stats_example_b64:
  "tag_stats b64 [b64 (1 / 1000), b64 (2 / 1000), b64 (3 / 1000), b64 (10 / 1000)]
     = Some \<lparr>count = 4, min_val = b64 (1 / 1000), max_val = b64 (10 / 1000),
             avg_filtered = 2882303761517117 / 1152921504606846976,
             avg_raw = b64 (4 / 1000)\<rparr>"
  by (simp add: lit_0001 lit_0002 lit_0003 lit_0010 lit_0004 py_sum_def b64_eval)

lemma stats_tenths_b64:
  "tag_stats b64 [b64 (1 / 10), b64 (1 / 10), b64 (1 / 10)]
     = Some \<lparr>count = 3, min_val = b64 (1 / 10), max_val = b64 (1 / 10),
             avg_filtered = 1801439850948199 / 18014398509481984,
             avg_raw = 7205759403792795 / 72057594037927936\<rparr>"
  by (simp add: lit_01 py_sum_def b64_eval)

lemma lit_001: "b64 (1 / 100) = 5764607523034235 / 576460752303423488" by (simp add: b64_eval)
lemma lit_002: "b64 (2 / 100) = 5764607523034235 / 288230376151711744" by (simp add: b64_eval)
lemma lit_0015: "b64 (15 / 1000) = 1080863910568919 / 72057594037927936" by (simp add: b64_eval)

lemma stats_pair_b64:
  "tag_stats b64 [b64 (1 / 100), b64 (2 / 100)]
     = Some \<lparr>count = 2, min_val = b64 (1 / 100), max_val = b64 (2 / 100),
             avg_filtered = b64 (15 / 1000), avg_raw = b64 (15 / 1000)\<rparr>"
  by (simp add: lit_001 lit_002 lit_0015 py_sum_def b64_eval)

subsection \<open>Exact arithmetic\<close>

lemma foldl_exact_sum: "foldl (\<lambda>acc x. exact (acc + x)) a vs = a + sum_list vs"
  by (induction vs arbitrary: a) (simp_all add: exact_def)

lemma py_sum_exact: "py_sum exact vs = sum_list vs"
  by (simp add: py_sum_def foldl_exact_sum)

lemma fold_min_Min: "fold min vs (v::real) = Min (set (v # vs))"
  by (rule Min.set_eq_fold [symmetric])

lemma fold_max_Max: "fold max vs (v::real) = Max (set (v # vs))"
  by (rule Max.set_eq_fold [symmetric])

lemma sum_list_remove1_real: "(x::real) \<in> set xs \<Longrightarrow> sum_list (remove1 x xs) = sum_list xs - x"
  by (induction xs) auto

lemma Max_in_remove1_Min:
  fixes vs :: "real list"
  assumes "2 \<le> length vs"
  shows "Max (set vs) \<in> set (remove1 (Min (set vs)) vs)"
proof (cases "Max (set vs) = Min (set vs)")
  case False
  have "vs \<noteq> []" using assms by auto
  then have "Max (set vs) \<in> set vs" by simp
  with False show ?thesis by simp
next
  case True
  have ne: "vs \<noteq> []" using assms by auto
  have all: "x = Min (set vs)" if "x \<in> set vs" for x
  proof -
    from that have "Min (set vs) \<le> x" and "x \<le> Max (set vs)" by simp_all
    with True show ?thesis by simp
  qed
  have "Min (set vs) \<in> set vs" using ne by simp
  then have "length (remove1 (Min (set vs)) vs) = length vs - 1" by (simp add: length_remove1)
  with assms have "remove1 (Min (set vs)) vs \<noteq> []" by auto
  then obtain y where y: "y \<in> set (remove1 (Min (set vs)) vs)" by (cases "remove1 (Min (set vs)) vs") auto
  then have "y \<in> set vs" using set_remove1_subset [of "Min (set vs)" vs] by blast
  then have "y = Min (set vs)" by (rule all)
  with y True show ?thesis by simp
qed

lemma trimmed_sum:
  fixes vs :: "real list"
  assumes "2 \<le> length vs"
  shows "sum_list (remove1 (Max (set vs)) (remove1 (Min (set vs)) vs))
           = sum_list vs - Min (set vs) - Max (set vs)"
proof -
  have "vs \<noteq> []" using assms by auto
  then have "Min (set vs) \<in> set vs" by simp
  then have "sum_list (remove1 (Min (set vs)) vs) = sum_list vs - Min (set vs)"
    by (rule sum_list_remove1_real)
  moreover have "sum_list (remove1 (Max (set vs)) (remove1 (Min (set vs)) vs))
                   = sum_list (remove1 (Min (set vs)) vs) - Max (set vs)"
    using Max_in_remove1_Min [OF assms] by (rule sum_list_remove1_real)
  ultimately show ?thesis by simp
qed

lemma tag_stats_exact:
  assumes "values \<noteq> []"
  shows "tag_stats exact values =
           Some \<lparr>count = length values, min_val = Min (set values), max_val = Max (set values),
                 avg_filtered = trimmed_mean_spec values,
                 avg_raw = sum_list values / real (length values)\<rparr>"
proof -
  from assms obtain v vs where vs: "values = v # vs" by (cases "values") auto
  have s: "py_sum exact (v # vs) = v + sum_list vs" by (simp add: py_sum_exact)
  show ?thesis
  proof (cases "2 < length values")
    case True
    then have "2 \<le> length values" by simp
    from trimmed_sum [OF this] True show ?thesis
      unfolding vs
      by (simp add: Let_def s fold_min_Min fold_max_Max trimmed_mean_spec_def exact_def
            del: Min_insert Max_insert set_simps)
  next
    case False
    then show ?thesis
      unfolding vs
      by (simp add: Let_def s fold_min_Min fold_max_Max trimmed_mean_spec_def exact_def
            del: Min_insert Max_insert set_simps)
  qed
qed

lemma tag_stats_small:
  assumes "values \<noteq> []" and "length values \<le> 2"
  shows "\<exists>st. tag_stats rnd values = Some st \<and> avg_filtered st = avg_raw st"
proof -
  from assms obtain v vs where vs: "values = v # vs" by (cases "values") auto
  with assms(2) show ?thesis by (simp add: Let_def)
qed

lemma sum_list_lower: "(\<forall>x \<in> set xs. (a::real) \<le> x) \<Longrightarrow> real (length xs) * a \<le> sum_list xs"
  by (induction xs) (auto simp: algebra_simps)

lemma sum_list_upper: "(\<forall>x \<in> set xs. x \<le> (b::real)) \<Longrightarrow> sum_list xs \<le> real (length xs) * b"
  by (induction xs) (auto simp: algebra_simps)

lemma mean_within:
  fixes xs :: "real list"
  assumes "xs \<noteq> []" and "\<forall>x \<in> set xs. a \<le> x \<and> x \<le> b"
  shows "a \<le> sum_list xs / real (length xs) \<and> sum_list xs / real (length xs) \<le> b"
proof -
  have n: "0 < real (length xs)" using assms(1) by simp
  have "real (length xs) * a \<le> sum_list xs" using assms(2) by (intro sum_list_lower) simp
  moreover have "sum_list xs \<le> real (length xs) * b" using assms(2) by (intro sum_list_upper) simp
  ultimately show ?thesis using n by (simp add: pos_le_divide_eq pos_divide_le_eq mult.commute)
qed

lemma trimmed_mean_spec_within:
  fixes vs :: "real list"
  assumes "vs \<noteq> []"
  shows "Min (set vs) \<le> trimmed_mean_spec vs \<and> trimmed_mean_spec vs \<le> Max (set vs)"
proof (cases "2 < length vs")
  case False
  have "\<forall>x \<in> set vs. Min (set vs) \<le> x \<and> x \<le> Max (set vs)" by simp
  from mean_within [OF assms this] False show ?thesis by (simp add: trimmed_mean_spec_def)
next
  case True
  let ?r = "remove1 (Max (set vs)) (remove1 (Min (set vs)) vs)"
  have mn: "Min (set vs) \<in> set vs" using assms by simp
  have "2 \<le> length vs" using True by simp
  then have mx: "Max (set vs) \<in> set (remove1 (Min (set vs)) vs)" by (rule Max_in_remove1_Min)
  have len: "length ?r = length vs - 2" using mn mx by (simp add: length_remove1)
  with True have ne: "?r \<noteq> []" by auto
  have "set ?r \<subseteq> set vs"
    using set_remove1_subset [of "Max (set vs)" "remove1 (Min (set vs)) vs"]
      set_remove1_subset [of "Min (set vs)" vs] by blast
  then have "\<forall>x \<in> set ?r. Min (set vs) \<le> x \<and> x \<le> Max (set vs)" by auto
  from mean_within [OF ne this] True len show ?thesis by (simp add: trimmed_mean_spec_def)
qed

subsection \<open>The trimmed mean\<close>

text \<open>
  Claim C1, as stated, fails at its own example: for the samples 0.001, 0.002, 0.003 and
  0.010 \<open>get_stats\<close> returns 0.0024999999999999996 as the trimmed mean, which is neither the
  float 0.0025 nor the number 25/10000 (the test of the repository compares with
  \<open>assertAlmostEqual\<close>).
\<close>

theorem trimmed_mean_example_is_rounded:
  "map_option avg_filtered
     (tag_stats b64 [b64 (1 / 1000), b64 (2 / 1000), b64 (3 / 1000), b64 (10 / 1000)])
     = Some (2882303761517117 / 1152921504606846976) \<and>
   (2882303761517117 / 1152921504606846976 :: real) \<noteq> b64 (25 / 10000) \<and>
   (2882303761517117 / 1152921504606846976 :: real) \<noteq> 25 / 10000"
  by (subst stats_example_b64) (simp add: lit_00025)

text \<open>
  Claim C1, amended. The trimmed mean is \<open>(sum - min - max) / (count - 2)\<close> when the bucket
  has more than two samples: in exact arithmetic this is the average of the samples that
  remain after removing one occurrence of the minimum and one occurrence of the maximum,
  also when several samples tie at an extreme; with two samples or fewer it equals the raw
  mean, whatever the rounding. In exact arithmetic the samples 0.001, 0.002, 0.003, 0.010
  give count 4, min 0.001, max 0.010, raw mean 0.004 and trimmed mean 0.0025, and the
  samples 0.01, 0.02 give 0.015 for both means. In binary64 the first example gives the
  floats 0.001, 0.010 and 0.004 and the trimmed mean 0.0024999999999999996, within
  \<open>10\<^sup>-\<^sup>1\<^sup>8\<close> of 0.0025; the second gives the float 0.015 for both means.
\<close>

theorem trimmed_mean_law:
  "(values \<noteq> [] \<longrightarrow>
      tag_stats exact values =
        Some \<lparr>count = length values, min_val = Min (set values), max_val = Max (set values),
              avg_filtered = trimmed_mean_spec values,
              avg_raw = sum_list values / real (length values)\<rparr>) \<and>
   (small \<noteq> [] \<and> length small \<le> 2 \<longrightarrow>
      (\<exists>st. tag_stats rnd small = Some st \<and> avg_filtered st = avg_raw st)) \<and>
   tag_stats exact [1 / 1000, 2 / 1000, 3 / 1000, 10 / 1000] =
     Some \<lparr>count = 4, min_val = 1 / 1000, max_val = 10 / 1000,
           avg_filtered = 25 / 10000, avg_raw = 4 / 1000\<rparr> \<and>
   tag_stats exact [1 / 100, 2 / 100] =
     Some \<lparr>count = 2, min_val = 1 / 100, max_val = 2 / 100,
           avg_filtered = 15 / 1000, avg_raw = 15 / 1000\<rparr> \<and>
   tag_stats b64 [b64 (1 / 1000), b64 (2 / 1000), b64 (3 / 1000), b64 (10 / 1000)] =
     Some \<lparr>count = 4, min_val = b64 (1 / 1000), max_val = b64 (10 / 1000),
           avg_filtered = 2882303761517117 / 1152921504606846976, avg_raw = b64 (4 / 1000)\<rparr> \<and>
   \<bar>2882303761517117 / 1152921504606846976 - 25 / 10000\<bar> < (1 / 10 ^ 18 :: real) \<and>
   tag_stats b64 [b64 (1 / 100), b64 (2 / 100)] =
     Some \<lparr>count = 2, min_val = b64 (1 / 100), max_val = b64 (2 / 100),
           avg_filtered = b64 (15 / 1000), avg_raw = b64 (15 / 1000)\<rparr>"
proof (intro conjI impI)
  assume "values \<noteq> []"
  then show "tag_stats exact values =
        Some \<lparr>count = length values, min_val = Min (set values), max_val = Max (set values),
              avg_filtered = trimmed_mean_spec values,
              avg_raw = sum_list values / real (length values)\<rparr>"
    by (rule tag_stats_exact)
next
  assume "small \<noteq> [] \<and> length small \<le> 2"
  then show "\<exists>st. tag_stats rnd small = Some st \<and> avg_filtered st = avg_raw st"
    by (simp add: tag_stats_small)
next
  show "tag_stats exact [1 / 1000, 2 / 1000, 3 / 1000, 10 / 1000] =
     Some \<lparr>count = 4, min_val = 1 / 1000, max_val = 10 / 1000,
           avg_filtered = 25 / 10000, avg_raw = 4 / 1000\<rparr>"
    by (simp add: py_sum_def exact_def Let_def)
next
  show "tag_stats exact [1 / 100, 2 / 100] =
     Some \<lparr>count = 2, min_val = 1 / 100, max_val = 2 / 100,
           avg_filtered = 15 / 1000, avg_raw = 15 / 1000\<rparr>"
    by (simp add: py_sum_def exact_def Let_def)
next
  show "tag_stats b64 [b64 (1 / 1000), b64 (2 / 1000), b64 (3 / 1000), b64 (10 / 1000)] =
     Some \<lparr>count = 4, min_val = b64 (1 / 1000), max_val = b64 (10 / 1000),
           avg_filtered = 2882303761517117 / 1152921504606846976, avg_raw = b64 (4 / 1000)\<rparr>"
    by (rule stats_example_b64)
next
  show "\<bar>2882303761517117 / 1152921504606846976 - 25 / 10000\<bar> < (1 / 10 ^ 18 :: real)"
    by simp
next
  show "tag_stats b64 [b64 (1 / 100), b64 (2 / 100)] =
     Some \<lparr>count = 2, min_val = b64 (1 / 100), max_val = b64 (2 / 100),
           avg_filtered = b64 (15 / 1000), avg_raw = b64 (15 / 1000)\<rparr>"
    by (rule stats_pair_b64)
qed

theorem trimmed_mean_law_witness:
  "[1, 1, 1, 5, 5 :: real] \<noteq> [] \<and>
   tag_stats exact [1, 1, 1, 5, 5] =
     Some \<lparr>count = 5, min_val = 1, max_val = 5, avg_filtered = 7 / 3, avg_raw = 13 / 5\<rparr> \<and>
   length [b64 (1 / 100), b64 (2 / 100)] \<le> 2 \<and>
   (\<exists>st. tag_stats b64 [b64 (1 / 100), b64 (2 / 100)] = Some st \<and> avg_filtered st = avg_raw st)"
proof -
  have h1: "[1, 1, 1, 5, 5 :: real] \<noteq> []" by simp
  have h2: "[b64 (1 / 100), b64 (2 / 100)] \<noteq> [] \<and> length [b64 (1 / 100), b64 (2 / 100)] \<le> 2" by simp
  have t: "trimmed_mean_spec [1, 1, 1, 5, 5] = 7 / 3" by (simp add: trimmed_mean_spec_def)
  note law = trimmed_mean_law [of "[1, 1, 1, 5, 5]" "[b64 (1 / 100), b64 (2 / 100)]" b64]
  from law h1 have "tag_stats exact [1, 1, 1, 5, 5] =
        Some \<lparr>count = length [1, 1, 1, 5, 5 :: real], min_val = Min (set [1, 1, 1, 5, 5]), max_val = Max (set [1, 1, 1, 5, 5]),
              avg_filtered = trimmed_mean_spec [1, 1, 1, 5, 5],
              avg_raw = sum_list [1, 1, 1, 5, 5] / real (length [1, 1, 1, 5, 5 :: real])\<rparr>" by blast
  then have a: "tag_stats exact [1, 1, 1, 5, 5] =
     Some \<lparr>count = 5, min_val = 1, max_val = 5, avg_filtered = 7 / 3, avg_raw = 13 / 5\<rparr>"
    by (simp add: t)
  from law h2 have b: "\<exists>st. tag_stats b64 [b64 (1 / 100), b64 (2 / 100)] = Some st \<and> avg_filtered st = avg_raw st"
    by blast
  from h1 h2 a b show ?thesis by blast
qed

subsection \<open>Means and extrema\<close>

text \<open>
  Claim C10, as stated, fails: rounding can put a mean outside the extrema. For three
  samples 0.1 the raw mean returned is 0.10000000000000002 and the trimmed mean
  0.10000000000000003, both above the maximum 0.1.
\<close>

theorem rounded_mean_exceeds_max:
  "tag_stats b64 [b64 (1 / 10), b64 (1 / 10), b64 (1 / 10)]
     = Some \<lparr>count = 3, min_val = b64 (1 / 10), max_val = b64 (1 / 10),
             avg_filtered = 1801439850948199 / 18014398509481984,
             avg_raw = 7205759403792795 / 72057594037927936\<rparr> \<and>
   b64 (1 / 10) < 7205759403792795 / 72057594037927936 \<and>
   b64 (1 / 10) < 1801439850948199 / 18014398509481984"
  by (subst stats_tenths_b64) (simp add: lit_01)

text \<open>
  Claim C10, amended. In exact arithmetic the statistics of every non-empty bucket satisfy
  \<open>min \<le> rawMean \<le> max\<close> and \<open>min \<le> trimmedMean \<le> max\<close>, for every sample count; the
  floats that \<open>get_stats\<close> returns can leave that interval by rounding.
\<close>

theorem exact_means_within_extrema:
  assumes "values \<noteq> []"
  shows "\<exists>st. tag_stats exact values = Some st \<and>
              min_val st \<le> avg_raw st \<and> avg_raw st \<le> max_val st \<and>
              min_val st \<le> avg_filtered st \<and> avg_filtered st \<le> max_val st"
proof -
  have "\<forall>x \<in> set values. Min (set values) \<le> x \<and> x \<le> Max (set values)" by simp
  from mean_within [OF assms this] trimmed_mean_spec_within [OF assms] tag_stats_exact [OF assms]
  show ?thesis by simp
qed

theorem exact_means_within_extrema_witness:
  "[1 / 10, 1 / 10, 1 / 10 :: real] \<noteq> [] \<and>
   tag_stats exact [1 / 10, 1 / 10, 1 / 10]
     = Some \<lparr>count = 3, min_val = 1 / 10, max_val = 1 / 10, avg_filtered = 1 / 10, avg_raw = 1 / 10\<rparr> \<and>
   (\<exists>st. tag_stats exact [1 / 10, 1 / 10, 1 / 10] = Some st \<and>
         min_val st \<le> avg_raw st \<and> avg_raw st \<le> max_val st \<and>
         min_val st \<le> avg_filtered st \<and> avg_filtered st \<le> max_val st)"
proof -
  have h: "[1 / 10, 1 / 10, 1 / 10 :: real] \<noteq> []" by simp
  have e: "tag_stats exact [1 / 10, 1 / 10, 1 / 10]
     = Some \<lparr>count = 3, min_val = 1 / 10, max_val = 1 / 10, avg_filtered = 1 / 10, avg_raw = 1 / 10\<rparr>"
    by (simp add: py_sum_def exact_def Let_def)
  from exact_means_within_extrema [OF h] h e show ?thesis by blast
qed

section \<open>Durations\<close>

subsection \<open>Rounding keeps the sign\<close>

lemma pow2_pos: "0 < pow2 e"
  by (simp add: pow2_def)

lemma round_half_even_nonneg: "0 \<le> x \<Longrightarrow> 0 \<le> round_half_even x"
  by (simp add: round_half_even_def Let_def)

lemma b64_nonneg: "0 \<le> x \<Longrightarrow> 0 \<le> b64 x"
proof (cases "x = 0")
  case True
  then show ?thesis by (simp add: b64_def)
next
  case False
  assume "0 \<le> x"
  with False have x: "0 < x" by simp
  let ?u = "pow2 (ilog2 \<bar>x\<bar> - 52)"
  have "0 \<le> \<bar>x\<bar> / ?u" using pow2_pos [of "ilog2 \<bar>x\<bar> - 52"] by simp
  then have "0 \<le> round_half_even (\<bar>x\<bar> / ?u)" by (rule round_half_even_nonneg)
  then have "0 \<le> of_int (round_half_even (\<bar>x\<bar> / ?u)) * ?u"
    using pow2_pos [of "ilog2 \<bar>x\<bar> - 52"] by simp
  with x False show ?thesis by (simp add: b64_def Let_def)
qed

subsection \<open>The samples of a state\<close>

lemma samples_tags_update:
  "(t, vs) \<in> set (dd_update tag0 [] (\<lambda>vs. vs @ [x]) tags) \<Longrightarrow> y \<in> set vs \<Longrightarrow>
     y = x \<or> (\<exists>(t', vs') \<in> set tags. y \<in> set vs')"
  by (induction tags) (auto split: if_splits)

lemma samples_append_sample:
  "(c, tags) \<in> set (append_sample category tag x d) \<Longrightarrow> (t, vs) \<in> set tags \<Longrightarrow> y \<in> set vs \<Longrightarrow>
     y = x \<or> (\<exists>(c', tags') \<in> set d. \<exists>(t', vs') \<in> set tags'. y \<in> set vs')"
proof (induction d)
  case Nil
  then show ?case by (auto simp: append_sample_def)
next
  case (Cons p d)
  obtain c0 tags0 where p: "p = (c0, tags0)" by (cases p)
  show ?case
  proof (cases "c0 = category")
    case True
    with p Cons.prems have "(c, tags) = (c0, dd_update tag [] (\<lambda>vs. vs @ [x]) tags0) \<or> (c, tags) \<in> set d"
      by (auto simp: append_sample_def)
    then show ?thesis
    proof
      assume "(c, tags) = (c0, dd_update tag [] (\<lambda>vs. vs @ [x]) tags0)"
      with Cons.prems(2,3) samples_tags_update [of t vs tag x tags0 y]
      have "y = x \<or> (\<exists>(t', vs') \<in> set tags0. y \<in> set vs')" by simp
      with p show ?thesis by auto
    next
      assume "(c, tags) \<in> set d"
      with Cons.prems(2,3) show ?thesis by fastforce
    qed
  next
    case False
    with p Cons.prems have "(c, tags) = (c0, tags0) \<or> (c, tags) \<in> set (append_sample category tag x d)"
      by (auto simp: append_sample_def)
    then show ?thesis
    proof
      assume "(c, tags) = (c0, tags0)"
      with p Cons.prems(2,3) show ?thesis by auto
    next
      assume "(c, tags) \<in> set (append_sample category tag x d)"
      from Cons.IH [OF this Cons.prems(2,3)] show ?thesis by auto
    qed
  qed
qed

lemma samples_data_update:
  "samples (s\<lparr>data := append_sample category tag x (data s)\<rparr>) \<subseteq> insert x (samples s)"
proof
  fix y assume "y \<in> samples (s\<lparr>data := append_sample category tag x (data s)\<rparr>)"
  then obtain c tags t vs where "(c, tags) \<in> set (append_sample category tag x (data s))"
    and "(t, vs) \<in> set tags" and "y \<in> set vs"
    by (auto simp: samples_def)
  from samples_append_sample [OF this] show "y \<in> insert x (samples s)"
    by (auto simp: samples_def)
qed

lemma samples_start_times_update [simp]: "samples (s\<lparr>start_times := m\<rparr>) = samples s"
  by (simp add: samples_def)

lemma samples_enabled_update [simp]: "samples (s\<lparr>enabled := b\<rparr>) = samples s"
  by (simp add: samples_def)

lemma bucket_subset_samples: "set (bucket s category tag) \<subseteq> samples s"
proof
  fix x assume x: "x \<in> set (bucket s category tag)"
  then obtain tags where 1: "map_of (data s) category = Some tags"
    by (cases "map_of (data s) category") (auto simp: bucket_def)
  with x obtain vs where "map_of tags tag = Some vs" and "x \<in> set vs"
    by (cases "map_of tags tag") (auto simp: bucket_def)
  with 1 have "map_of (data s) category = Some tags" and "map_of tags tag = Some vs"
    and "x \<in> set vs" by simp_all
  then have "(category, tags) \<in> set (data s)" and "(tag, vs) \<in> set tags" and "x \<in> set vs"
    by (auto dest: map_of_SomeD)
  then show "x \<in> samples s" by (auto simp: samples_def)
qed

subsection \<open>Non-negative samples\<close>

lemma step_keeps_nonneg:
  assumes nn: "\<forall>y \<in> samples s. 0 \<le> y"
    and pend: "\<forall>t \<in> ran (start_times s). \<forall>r \<in> set (clock_readings (x # xs)). t \<le> r"
    and srt: "sorted (clock_readings (x # xs))"
    and sub: "\<forall>v \<in> set (submitted (x # xs)). 0 \<le> v"
    and st: "step b64 x s = Inr (r, s1)"
  shows "(\<forall>y \<in> samples s1. 0 \<le> y) \<and>
         (\<forall>t \<in> ran (start_times s1). \<forall>r \<in> set (clock_readings xs). t \<le> r) \<and>
         sorted (clock_readings xs) \<and> (\<forall>v \<in> set (submitted xs). 0 \<le> v)"
proof (cases x)
  case Enable
  with assms show ?thesis by (auto simp: enable_def)
next
  case Disable
  with assms show ?thesis by (auto simp: disable_def)
next
  case Init
  with assms show ?thesis by (auto simp: init_def samples_def)
next
  case Deinit
  with assms show ?thesis by (auto simp: deinit_def init_def samples_def)
next
  case (StartRecord category tag ident stamp now)
  show ?thesis
  proof (cases "enabled s")
    case False
    with StartRecord assms show ?thesis by (auto simp: start_record_def)
  next
    case True
    let ?k = "make_key category tag ident stamp"
    from True StartRecord st have s1: "s1 = s\<lparr>start_times := (start_times s)(?k \<mapsto> now)\<rparr>"
      by (simp add: start_record_enabled)
    have a: "\<forall>y \<in> samples s1. 0 \<le> y" using nn s1 by simp
    have b: "\<forall>t \<in> ran (start_times s1). \<forall>r \<in> set (clock_readings xs). t \<le> r"
    proof (intro ballI)
      fix t r assume t: "t \<in> ran (start_times s1)" and r: "r \<in> set (clock_readings xs)"
      from t s1 have "t = now \<or> t \<in> ran (start_times s)"
        by (auto simp: ran_def split: if_splits)
      then show "t \<le> r"
      proof
        assume "t = now"
        with srt StartRecord r show ?thesis by auto
      next
        assume "t \<in> ran (start_times s)"
        with pend StartRecord r show ?thesis by auto
      qed
    qed
    from a b srt sub StartRecord show ?thesis by auto
  qed
next
  case (EndRecord category tag key end_time)
  from srt sub EndRecord have rest: "sorted (clock_readings xs)" "\<forall>v \<in> set (submitted xs). 0 \<le> v"
    by auto
  from st EndRecord have er: "end_record b64 category tag key end_time s = Inr s1"
    by (auto split: sum.splits)
  show ?thesis
  proof (cases "enabled s \<and> (\<exists>k t0. key = Some k \<and> k \<noteq> [] \<and> start_times s k = Some t0)")
    case False
    then have "end_record b64 category tag key end_time s = Inr s"
      by (cases key) (auto simp: end_record_def dom_def)
    with er have "s1 = s" by simp
    with nn pend EndRecord rest show ?thesis by auto
  next
    case True
    then obtain k t0 where k: "enabled s" "key = Some k" "k \<noteq> []" "start_times s k = Some t0"
      by blast
    from end_record_hit [OF k(1,3,4)] er k(2)
    have s1: "s1 = s\<lparr>start_times := (start_times s)(k := None),
                     data := append_sample category tag (b64 (end_time - t0)) (data s)\<rparr>"
      by simp
    from k(4) have "t0 \<in> ran (start_times s)" by (auto simp: ran_def)
    with pend EndRecord have "t0 \<le> end_time" by auto
    then have e: "0 \<le> b64 (end_time - t0)" by (intro b64_nonneg) simp
    have "samples s1 \<subseteq> insert (b64 (end_time - t0)) (samples s)"
    proof -
      have "samples s1 = samples (s\<lparr>data := append_sample category tag (b64 (end_time - t0)) (data s)\<rparr>)"
        unfolding s1 by (simp add: samples_def)
      then show ?thesis using samples_data_update by simp
    qed
    with nn e have a: "\<forall>y \<in> samples s1. 0 \<le> y" by auto
    have b: "\<forall>t \<in> ran (start_times s1). \<forall>r \<in> set (clock_readings xs). t \<le> r"
    proof (intro ballI)
      fix t r assume t: "t \<in> ran (start_times s1)" and r: "r \<in> set (clock_readings xs)"
      from t s1 have "t \<in> ran (start_times s)" by (auto simp: ran_def split: if_splits)
      with pend EndRecord r show "t \<le> r" by auto
    qed
    from a b rest show ?thesis by simp
  qed
next
  case (RecordValue category tag v)
  from sub RecordValue have v: "0 \<le> v" by simp
  from st RecordValue have s1: "s1 = record_value category tag v s" by simp
  have a: "\<forall>y \<in> samples s1. 0 \<le> y"
  proof (cases "enabled s")
    case False
    with s1 nn show ?thesis by (simp add: record_value_def)
  next
    case True
    with s1 have "samples s1 \<subseteq> insert v (samples s)"
      using samples_data_update [of category tag v s] by (simp add: record_value_def)
    with nn v show ?thesis by auto
  qed
  have "start_times s1 = start_times s" using s1 by (simp add: record_value_def)
  with a pend srt sub RecordValue show ?thesis by auto
qed

lemma run_keeps_nonneg:
  assumes "\<forall>y \<in> samples s. 0 \<le> y"
    and "\<forall>t \<in> ran (start_times s). \<forall>r \<in> set (clock_readings ops). t \<le> r"
    and "sorted (clock_readings ops)"
    and "\<forall>v \<in> set (submitted ops). 0 \<le> v"
    and "run b64 ops s = Inr (toks, s')"
  shows "\<forall>y \<in> samples s'. 0 \<le> y"
  using assms
proof (induction ops arbitrary: s toks s')
  case Nil
  then show ?case by simp
next
  case (Cons x xs)
  obtain r s1 where 1: "step b64 x s = Inr (r, s1)" using step_never_raises by blast
  obtain toks1 s2 where 2: "run b64 xs s1 = Inr (toks1, s2)" using run_never_raises by blast
  from 1 2 Cons.prems(5) have eq: "s' = s2" by simp
  from step_keeps_nonneg [OF Cons.prems(1-4) 1]
  have "\<forall>y \<in> samples s1. 0 \<le> y"
    and "\<forall>t \<in> ran (start_times s1). \<forall>r \<in> set (clock_readings xs). t \<le> r"
    and "sorted (clock_readings xs)" and "\<forall>v \<in> set (submitted xs). 0 \<le> v"
    by blast+
  from Cons.IH [OF this 2] eq show ?case by simp
qed

text \<open>
  Claim C6, as stated, fails: \<open>record_value\<close> appends the value it is given without looking
  at its sign, so a negative submission is stored.
\<close>

theorem negative_submission_is_stored:
  "sorted (clock_readings [RecordValue ''c'' ''t'' (- 1)]) \<and>
   run b64 [RecordValue ''c'' ''t'' (- 1)] fresh
     = Inr ([], \<lparr>data = [(''c'', [(''t'', [- 1])])], start_times = Map.empty, enabled = True\<rparr>) \<and>
   bucket \<lparr>data = [(''c'', [(''t'', [- 1])])], start_times = Map.empty, enabled = True\<rparr> ''c'' ''t''
     = [- 1] \<and>
   \<not> (0 :: real) \<le> - 1"
  by (simp add: fresh_def record_value_def append_sample_def bucket_def)

text \<open>
  Claim C6, amended. \<open>record_value\<close> stores the submitted value as it is. For every
  sequence of calls on the fresh recorder under a monotonic clock in which every submitted
  value is non-negative, every sample of every bucket is non-negative; in particular the
  samples that \<open>end_record\<close> computes are.
\<close>

theorem samples_nonnegative:
  "(sorted (clock_readings ops) \<and> (\<forall>v \<in> set (submitted ops). 0 \<le> v) \<and>
    run b64 ops fresh = Inr (toks, s) \<longrightarrow>
      (\<forall>y \<in> samples s. 0 \<le> y) \<and> (\<forall>y \<in> set (bucket s category tag). 0 \<le> y)) \<and>
   (enabled s0 \<longrightarrow>
      bucket (record_value category tag v s0) category tag = bucket s0 category tag @ [v])"
proof (intro conjI impI)
  assume a: "sorted (clock_readings ops) \<and> (\<forall>v \<in> set (submitted ops). 0 \<le> v) \<and>
    run b64 ops fresh = Inr (toks, s)"
  have "\<forall>y \<in> samples fresh. 0 \<le> y" by (simp add: samples_def fresh_def)
  moreover have "\<forall>t \<in> ran (start_times fresh). \<forall>r \<in> set (clock_readings ops). t \<le> r"
    by (simp add: fresh_def)
  ultimately show all: "\<forall>y \<in> samples s. 0 \<le> y"
    using a run_keeps_nonneg [of fresh ops toks s] by blast
  then show "\<forall>y \<in> set (bucket s category tag). 0 \<le> y"
    using bucket_subset_samples [of s category tag] by blast
next
  assume "enabled s0"
  then show "bucket (record_value category tag v s0) category tag = bucket s0 category tag @ [v]"
    by (simp add: record_value_def bucket_append_sample)
qed

theorem samples_nonnegative_witness:
  "sorted (clock_readings [StartRecord ''c'' ''t'' 7 ''1.5'' (3 / 2), RecordValue ''c'' ''t'' (1 / 4),
                          EndRecord ''c'' ''t'' (Some ''c::t::7::1.5'') 2]) \<and>
   run b64 [StartRecord ''c'' ''t'' 7 ''1.5'' (3 / 2), RecordValue ''c'' ''t'' (1 / 4),
            EndRecord ''c'' ''t'' (Some ''c::t::7::1.5'') 2] fresh
     = Inr ([''c::t::7::1.5''],
            \<lparr>data = [(''c'', [(''t'', [1 / 4, 1 / 2])])], start_times = Map.empty, enabled = True\<rparr>) \<and>
   list_all (\<lambda>y. 0 \<le> y)
     (bucket \<lparr>data = [(''c'', [(''t'', [1 / 4, 1 / 2])])], start_times = Map.empty, enabled = True\<rparr>
        ''c'' ''t'') \<and>
   enabled fresh \<and> bucket (record_value ''c'' ''t'' (1 / 4) fresh) ''c'' ''t'' = [1 / 4]"
proof -
  let ?ops = "[StartRecord ''c'' ''t'' 7 ''1.5'' (3 / 2), RecordValue ''c'' ''t'' (1 / 4),
               EndRecord ''c'' ''t'' (Some ''c::t::7::1.5'') 2]"
  let ?s = "\<lparr>data = [(''c'', [(''t'', [1 / 4, 1 / 2])])], start_times = Map.empty, enabled = True\<rparr>"
  have srt: "sorted (clock_readings ?ops)" by simp
  have sub: "\<forall>v \<in> set (submitted ?ops). 0 \<le> v" by simp
  have r: "run b64 ?ops fresh = Inr ([''c::t::7::1.5''], ?s)"
    by (simp add: fresh_def start_record_def Let_def key_c_t record_value_def end_record_def
          dict_pop_def append_sample_def b64_half)
  have e: "enabled fresh" by (simp add: fresh_def)
  have b0: "bucket fresh ''c'' ''t'' = []" by (simp add: bucket_def fresh_def)
  note t = samples_nonnegative [of ?ops "[''c::t::7::1.5'']" ?s "''c''" "''t''" fresh "1 / 4"]
  from t srt sub r have "\<forall>y \<in> set (bucket ?s ''c'' ''t''). 0 \<le> y" by blast
  then have la: "list_all (\<lambda>y. 0 \<le> y) (bucket ?s ''c'' ''t'')" by (simp add: list_all_iff)
  from t e have "bucket (record_value ''c'' ''t'' (1 / 4) fresh) ''c'' ''t'' = bucket fresh ''c'' ''t'' @ [1 / 4]"
    by blast
  with b0 have rv: "bucket (record_value ''c'' ''t'' (1 / 4) fresh) ''c'' ''t'' = [1 / 4]" by simp
  from srt r la e rv show ?thesis by blast
qed

section \<open>The report\<close>

subsection \<open>Rows of the report\<close>










subsection \<open>Three decimals\<close>

lemma round_half_even_close: "\<bar>real_of_int (round_half_even x) - x\<bar> \<le> 1 / 2"
proof -
  have "of_int \<lfloor>x\<rfloor> \<le> x" and "x < of_int \<lfloor>x\<rfloor> + 1" by linarith+
  then show ?thesis by (auto simp: round_half_even_def Let_def)
qed

lemma round_to_thousandths:
  "\<bar>real_of_int (round_half_even (\<bar>x\<bar> * 1000)) / 1000 - \<bar>x\<bar>\<bar> \<le> 1 / 2000"
  using round_half_even_close [of "\<bar>x\<bar> * 1000"] by (simp add: field_simps)

subsection \<open>Evaluations of the report\<close>
















subsection \<open>The average column\<close>



section \<open>Threads\<close>

subsection \<open>One scheduled call\<close>

lemma worker_step_never_raises:
  "\<exists>w s'. worker_step rnd category tag ident stamp now w0 s = Inr (w, s')"
proof (cases w0)
  case (Idle n)
  then show ?thesis by (cases n) (auto split: prod.splits)
next
  case (Inside key n)
  then show ?thesis
    using end_record_never_raises [of rnd category tag key now s] by auto
qed

lemma run_threads_never_raises:
  "\<exists>ws' s'. run_threads rnd category tag sched ws s = Inr (ws', s')"
proof (induction sched arbitrary: ws s)
  case Nil
  show ?case by simp
next
  case (Cons e sched)
  obtain ident stamp now where e: "e = (ident, stamp, now)" by (cases e)
  obtain w s1 where 1: "worker_step rnd category tag ident stamp now (ws ident) s = Inr (w, s1)"
    using worker_step_never_raises by blast
  obtain ws2 s2 where 2: "run_threads rnd category tag sched (ws(ident := w)) s1 = Inr (ws2, s2)"
    using Cons by blast
  have "run_threads rnd category tag (e # sched) ws s = Inr (ws2, s2)"
    unfolding e by (simp only: run_threads.simps 1 2 sum.case prod.case)
  then show ?case by blast
qed

lemma sum_remaining_update:
  assumes "finite T" and "i \<in> T"
  shows "(\<Sum>j\<in>T. remaining ((ws(i := w)) j)) + remaining (ws i)
           = (\<Sum>j\<in>T. remaining (ws j)) + remaining w"
proof -
  have "(\<Sum>j\<in>T. remaining ((ws(i := w)) j))
          = remaining ((ws(i := w)) i) + (\<Sum>j\<in>T - {i}. remaining ((ws(i := w)) j))"
    using assms by (rule sum.remove)
  moreover have "(\<Sum>j\<in>T. remaining (ws j)) = remaining (ws i) + (\<Sum>j\<in>T - {i}. remaining (ws j))"
    using assms by (rule sum.remove)
  moreover have "(\<Sum>j\<in>T - {i}. remaining ((ws(i := w)) j)) = (\<Sum>j\<in>T - {i}. remaining (ws j))"
    by (rule sum.cong) auto
  ultimately show ?thesis by simp
qed

lemma worker_step_keeps:
  assumes fin: "finite T" and en: "enabled s"
    and out: "\<forall>j. j \<notin> T \<longrightarrow> ws j = Idle 0"
    and pend: "\<forall>j\<in>T. \<forall>key n. ws j = Inside key n \<longrightarrow>
                 (\<exists>st. key = Some (make_key category tag j st) \<and>
                       make_key category tag j st \<in> dom (start_times s))"
    and st: "worker_step rnd category tag i stamp now (ws i) s = Inr (w, s')"
  shows "enabled s' \<and>
         (\<forall>j. j \<notin> T \<longrightarrow> (ws(i := w)) j = Idle 0) \<and>
         (\<forall>j\<in>T. \<forall>key n. (ws(i := w)) j = Inside key n \<longrightarrow>
                 (\<exists>st. key = Some (make_key category tag j st) \<and>
                       make_key category tag j st \<in> dom (start_times s'))) \<and>
         (\<exists>new. bucket s' category tag = bucket s category tag @ new \<and>
                length new + (\<Sum>j\<in>T. remaining ((ws(i := w)) j)) = (\<Sum>j\<in>T. remaining (ws j)))"
proof (cases "ws i")
  case (Idle n)
  show ?thesis
  proof (cases n)
    case 0
    with Idle st have "w = Idle 0" and "s' = s" by simp_all
    with Idle 0 have "ws(i := w) = ws" and "s' = s" by auto
    with en out pend show ?thesis by simp
  next
    case (Suc m)
    with Idle out have i: "i \<in> T" by auto
    let ?k = "make_key category tag i stamp"
    from Idle Suc st en have w: "w = Inside (Some ?k) m"
      and s': "s' = s\<lparr>start_times := (start_times s)(?k \<mapsto> now)\<rparr>"
      by (simp_all add: start_record_enabled)
    have a: "enabled s'" using en s' by simp
    have b: "\<forall>j. j \<notin> T \<longrightarrow> (ws(i := w)) j = Idle 0" using out i by auto
    have c: "\<forall>j\<in>T. \<forall>key n. (ws(i := w)) j = Inside key n \<longrightarrow>
                 (\<exists>st. key = Some (make_key category tag j st) \<and>
                       make_key category tag j st \<in> dom (start_times s'))"
    proof (intro ballI allI impI)
      fix j key n assume j: "j \<in> T" and h: "(ws(i := w)) j = Inside key n"
      show "\<exists>st. key = Some (make_key category tag j st) \<and>
                 make_key category tag j st \<in> dom (start_times s')"
      proof (cases "j = i")
        case True
        with h w have "key = Some ?k" by simp
        with True s' show ?thesis by auto
      next
        case False
        with h have "ws j = Inside key n" by simp
        with pend j obtain st where "key = Some (make_key category tag j st)"
          and "make_key category tag j st \<in> dom (start_times s)" by blast
        with s' show ?thesis by auto
      qed
    qed
    have "remaining w = remaining (ws i)" using w Idle Suc by simp
    with sum_remaining_update [OF fin i, of ws w]
    have "(\<Sum>j\<in>T. remaining ((ws(i := w)) j)) = (\<Sum>j\<in>T. remaining (ws j))" by simp
    moreover have "bucket s' category tag = bucket s category tag @ []" using s' by simp
    ultimately have d: "\<exists>new. bucket s' category tag = bucket s category tag @ new \<and>
                length new + (\<Sum>j\<in>T. remaining ((ws(i := w)) j)) = (\<Sum>j\<in>T. remaining (ws j))"
      by (intro exI [of _ "[]"]) simp
    from a b c d show ?thesis by blast
  qed
next
  case (Inside key n)
  with out have i: "i \<in> T" by auto
  with pend Inside obtain st0 where key: "key = Some (make_key category tag i st0)"
    and dom: "make_key category tag i st0 \<in> dom (start_times s)" by blast
  let ?k = "make_key category tag i st0"
  from dom obtain t0 where t0: "start_times s ?k = Some t0" by auto
  from end_record_hit [OF en make_key_nonempty t0, of rnd category tag now] Inside key st
  have w: "w = Idle n"
    and s': "s' = s\<lparr>start_times := (start_times s)(?k := None),
                    data := append_sample category tag (rnd (now - t0)) (data s)\<rparr>"
    by simp_all
  have a: "enabled s'" using en s' by simp
  have b: "\<forall>j. j \<notin> T \<longrightarrow> (ws(i := w)) j = Idle 0" using out i by auto
  have c: "\<forall>j\<in>T. \<forall>key n. (ws(i := w)) j = Inside key n \<longrightarrow>
                 (\<exists>st. key = Some (make_key category tag j st) \<and>
                       make_key category tag j st \<in> dom (start_times s'))"
  proof (intro ballI allI impI)
    fix j key' n' assume j: "j \<in> T" and h: "(ws(i := w)) j = Inside key' n'"
    from h w have ne: "j \<noteq> i" by (auto split: if_splits)
    with h have "ws j = Inside key' n'" by simp
    with pend j obtain st where k': "key' = Some (make_key category tag j st)"
      and d': "make_key category tag j st \<in> dom (start_times s)" by blast
    have "make_key category tag j st \<noteq> ?k"
      using make_key_same_labels [of category tag j st i st0] ne by blast
    with d' s' have "make_key category tag j st \<in> dom (start_times s')" by auto
    with k' show "\<exists>st. key' = Some (make_key category tag j st) \<and>
                 make_key category tag j st \<in> dom (start_times s')" by blast
  qed
  have "bucket s' category tag
          = bucket (s\<lparr>data := append_sample category tag (rnd (now - t0)) (data s)\<rparr>) category tag"
    unfolding s' by (simp add: bucket_def)
  then have len: "bucket s' category tag = bucket s category tag @ [rnd (now - t0)]"
    by (simp add: bucket_append_sample)
  have "remaining (ws i) = Suc (remaining w)" using w Inside by simp
  with sum_remaining_update [OF fin i, of ws w]
  have "(\<Sum>j\<in>T. remaining (ws j)) = Suc (\<Sum>j\<in>T. remaining ((ws(i := w)) j))" by simp
  with len have d: "\<exists>new. bucket s' category tag = bucket s category tag @ new \<and>
                length new + (\<Sum>j\<in>T. remaining ((ws(i := w)) j)) = (\<Sum>j\<in>T. remaining (ws j))"
    by (intro exI [of _ "[rnd (now - t0)]"]) simp
  from a b c d show ?thesis by blast
qed

lemma worker_step_enabled:
  "worker_step rnd category tag ident stamp now w0 s = Inr (w, s') \<Longrightarrow> enabled s \<Longrightarrow> enabled s'"
proof (cases w0)
  case (Idle n)
  then show "worker_step rnd category tag ident stamp now w0 s = Inr (w, s') \<Longrightarrow> enabled s \<Longrightarrow> enabled s'"
    by (cases n) (auto simp: start_record_def Let_def)
next
  case (Inside key n)
  then show "worker_step rnd category tag ident stamp now w0 s = Inr (w, s') \<Longrightarrow> enabled s \<Longrightarrow> enabled s'"
    using end_record_enabled [of rnd category tag key now s] by (auto split: sum.splits)
qed

lemma run_threads_enabled:
  "run_threads rnd category tag sched ws s = Inr (ws', s') \<Longrightarrow> enabled s \<Longrightarrow> enabled s'"
proof (induction sched arbitrary: ws s)
  case Nil
  then show ?case by simp
next
  case (Cons e sched)
  obtain j stamp now where e: "e = (j, stamp, now)" by (cases e)
  obtain w s1 where 1: "worker_step rnd category tag j stamp now (ws j) s = Inr (w, s1)"
    using worker_step_never_raises by blast
  have "run_threads rnd category tag (e # sched) ws s = run_threads rnd category tag sched (ws(j := w)) s1"
    unfolding e by (simp only: run_threads.simps 1 sum.case prod.case)
  with Cons.prems(1) have 2: "run_threads rnd category tag sched (ws(j := w)) s1 = Inr (ws', s')"
    by simp
  from worker_step_enabled [OF 1 Cons.prems(2)] have "enabled s1" .
  with Cons.IH [OF 2] show ?case .
qed

lemma run_threads_keeps:
  assumes "finite T" and "enabled s"
    and "\<forall>j. j \<notin> T \<longrightarrow> ws j = Idle 0"
    and "\<forall>j\<in>T. \<forall>key n. ws j = Inside key n \<longrightarrow>
                 (\<exists>st. key = Some (make_key category tag j st) \<and>
                       make_key category tag j st \<in> dom (start_times s))"
    and "run_threads rnd category tag sched ws s = Inr (ws', s')"
  shows "\<exists>new. bucket s' category tag = bucket s category tag @ new \<and>
               length new + (\<Sum>j\<in>T. remaining (ws' j)) = (\<Sum>j\<in>T. remaining (ws j))"
  using assms
proof (induction sched arbitrary: ws s)
  case Nil
  then show ?case by simp
next
  case (Cons e sched)
  obtain i stamp now where e: "e = (i, stamp, now)" by (cases e)
  obtain w s1 where 1: "worker_step rnd category tag i stamp now (ws i) s = Inr (w, s1)"
    using worker_step_never_raises by blast
  have "run_threads rnd category tag (e # sched) ws s = run_threads rnd category tag sched (ws(i := w)) s1"
    unfolding e by (simp only: run_threads.simps 1 sum.case prod.case)
  with Cons.prems(5) have 2: "run_threads rnd category tag sched (ws(i := w)) s1 = Inr (ws', s')"
    by simp
  from worker_step_keeps [OF Cons.prems(1-4) 1]
  have k: "enabled s1" "\<forall>j. j \<notin> T \<longrightarrow> (ws(i := w)) j = Idle 0"
    "\<forall>j\<in>T. \<forall>key n. (ws(i := w)) j = Inside key n \<longrightarrow>
                 (\<exists>st. key = Some (make_key category tag j st) \<and>
                       make_key category tag j st \<in> dom (start_times s1))"
    and "\<exists>new. bucket s1 category tag = bucket s category tag @ new \<and>
                length new + (\<Sum>j\<in>T. remaining ((ws(i := w)) j)) = (\<Sum>j\<in>T. remaining (ws j))"
    by blast+
  then obtain new1 where n1: "bucket s1 category tag = bucket s category tag @ new1"
    and l1: "length new1 + (\<Sum>j\<in>T. remaining ((ws(i := w)) j)) = (\<Sum>j\<in>T. remaining (ws j))"
    by blast
  from Cons.IH [OF Cons.prems(1) k 2]
  obtain new2 where n2: "bucket s' category tag = bucket s1 category tag @ new2"
    and l2: "length new2 + (\<Sum>j\<in>T. remaining (ws' j)) = (\<Sum>j\<in>T. remaining ((ws(i := w)) j))"
    by blast
  from n1 n2 have "bucket s' category tag = bucket s category tag @ (new1 @ new2)" by simp
  moreover from l1 l2 have "length (new1 @ new2) + (\<Sum>j\<in>T. remaining (ws' j)) = (\<Sum>j\<in>T. remaining (ws j))"
    by simp
  ultimately show ?case by blast
qed

subsection \<open>Progress of a thread\<close>

lemma worker_step_calls_left:
  "worker_step rnd category tag ident stamp now w0 s = Inr (w, s') \<Longrightarrow> calls_left w = calls_left w0 - 1"
proof (cases w0)
  case (Idle n)
  then show "worker_step rnd category tag ident stamp now w0 s = Inr (w, s') \<Longrightarrow> calls_left w = calls_left w0 - 1"
    by (cases n) (auto split: prod.splits)
next
  case (Inside key n)
  then show "worker_step rnd category tag ident stamp now w0 s = Inr (w, s') \<Longrightarrow> calls_left w = calls_left w0 - 1"
    by (auto split: sum.splits)
qed

lemma run_threads_calls_left:
  "run_threads rnd category tag sched ws s = Inr (ws', s') \<Longrightarrow>
   calls_left (ws' i) = calls_left (ws i) - count_list (map fst sched) i"
proof (induction sched arbitrary: ws s)
  case Nil
  then show ?case by simp
next
  case (Cons e sched)
  obtain j stamp now where e: "e = (j, stamp, now)" by (cases e)
  obtain w s1 where 1: "worker_step rnd category tag j stamp now (ws j) s = Inr (w, s1)"
    using worker_step_never_raises by blast
  have "run_threads rnd category tag (e # sched) ws s = run_threads rnd category tag sched (ws(j := w)) s1"
    unfolding e by (simp only: run_threads.simps 1 sum.case prod.case)
  with Cons.prems have 2: "run_threads rnd category tag sched (ws(j := w)) s1 = Inr (ws', s')"
    by simp
  from Cons.IH [OF 2]
  have ih: "calls_left (ws' i) = calls_left ((ws(j := w)) i) - count_list (map fst sched) i" .
  show ?case
  proof (cases "i = j")
    case True
    with ih worker_step_calls_left [OF 1] e show ?thesis by simp
  next
    case False
    with ih e show ?thesis by simp
  qed
qed

lemma calls_left_0: "calls_left w = 0 \<Longrightarrow> w = Idle 0"
  by (cases w) auto

subsection \<open>Every timer leaves one sample\<close>

text \<open>
  Thread \<open>i\<close> of \<open>T\<close> runs \<open>m i\<close> timers. In a schedule that gives every thread at least
  its \<open>2 * m i\<close> calls all threads finish, and the bucket has grown by one sample for each
  timer; what it held before is still there.
\<close>

lemma threads_record_all_timers:
  assumes "finite T" and "enabled s"
    and "\<forall>i\<in>T. 2 * m i \<le> count_list (map fst sched) i"
  shows "\<exists>ws' s' new.
           run_threads rnd category tag sched (\<lambda>i. if i \<in> T then Idle (m i) else Idle 0) s = Inr (ws', s') \<and>
           (\<forall>i. ws' i = Idle 0) \<and>
           enabled s' \<and>
           bucket s' category tag = bucket s category tag @ new \<and>
           length new = (\<Sum>i\<in>T. m i)"
proof -
  let ?ws = "\<lambda>i. if i \<in> T then Idle (m i) else Idle 0"
  obtain ws' s' where r: "run_threads rnd category tag sched ?ws s = Inr (ws', s')"
    using run_threads_never_raises by blast
  have idle: "ws' i = Idle 0" for i
  proof -
    have "calls_left (ws' i) = calls_left (?ws i) - count_list (map fst sched) i"
      using r by (rule run_threads_calls_left)
    moreover have "calls_left (?ws i) \<le> count_list (map fst sched) i"
      using assms(3) by simp
    ultimately have "calls_left (ws' i) = 0" by simp
    then show ?thesis by (rule calls_left_0)
  qed
  have out: "\<forall>j. j \<notin> T \<longrightarrow> ?ws j = Idle 0" by simp
  have pend: "\<forall>j\<in>T. \<forall>key n. ?ws j = Inside key n \<longrightarrow>
                 (\<exists>st. key = Some (make_key category tag j st) \<and>
                       make_key category tag j st \<in> dom (start_times s))" by simp
  from run_threads_keeps [OF assms(1,2) out pend r]
  obtain new where n: "bucket s' category tag = bucket s category tag @ new"
    and l: "length new + (\<Sum>j\<in>T. remaining (ws' j)) = (\<Sum>j\<in>T. remaining (?ws j))"
    by blast
  have "(\<Sum>j\<in>T. remaining (ws' j)) = 0" by (simp add: idle)
  moreover have "(\<Sum>j\<in>T. remaining (?ws j)) = (\<Sum>j\<in>T. m j)" by simp
  ultimately have len: "length new = (\<Sum>j\<in>T. m j)" using l by simp
  have en: "enabled s'" using r assms(2) by (rule run_threads_enabled)
  from r idle en n len show ?thesis by blast
qed

lemma key_c_t_8: "make_key ''c'' ''t'' 8 ''1.5'' = ''c::t::8::1.5''"
  by (simp add: make_key_def str_nat.simps digit_char_def)

text \<open>
  Two threads, one timer each, both started before either ends and with the same clock
  readings: two samples.
\<close>

lemma two_threads_run:
  "(case run_threads b64 ''c'' ''t''
           [(7, ''1.5'', 3 / 2), (8, ''1.5'', 3 / 2), (7, ''2.0'', 2), (8, ''2.0'', 2)]
           (\<lambda>i. if i \<in> {7, 8} then Idle 1 else Idle 0) fresh of
      Inl e \<Rightarrow> False
    | Inr (ws', s') \<Rightarrow>
        ws' 7 = Idle 0 \<and> ws' 8 = Idle 0 \<and> bucket s' ''c'' ''t'' = [1 / 2, 1 / 2] \<and>
        dom (start_times s') = {})"
  by (simp add: fresh_def start_record_def Let_def key_c_t key_c_t_8 end_record_def dict_pop_def
        append_sample_def b64_half bucket_def)

text \<open>
  Claim C9. \<open>N\<close> threads (the finite set \<open>T\<close> of their identifiers, \<open>N = card T\<close>) each run
  \<open>M\<close> times \<open>with PerfTimer(category, tag)\<close> on the same enabled recorder, their calls
  interleaved in any order and with any clock readings. Once every thread has made its
  \<open>2 * M\<close> calls, no call has raised, every thread has finished and the bucket holds what
  it held before followed by exactly \<open>N * M\<close> new samples: none is lost and none is
  recorded twice.
\<close>

theorem threads_record_every_timer:
  assumes "finite T" and "enabled s"
    and "\<forall>i\<in>T. 2 * M \<le> count_list (map fst sched) i"
  shows "\<exists>ws' s' new.
           run_threads rnd category tag sched (\<lambda>i. if i \<in> T then Idle M else Idle 0) s = Inr (ws', s') \<and>
           (\<forall>i. ws' i = Idle 0) \<and>
           enabled s' \<and>
           bucket s' category tag = bucket s category tag @ new \<and>
           length new = card T * M"
  using threads_record_all_timers [OF assms(1,2), of "\<lambda>i. M" sched rnd category tag] assms(3)
  by simp

theorem threads_record_every_timer_witness:
  "finite {7, 8::nat} \<and> enabled fresh \<and>
   2 * 1 \<le> count_list (map fst [(7::nat, ''1.5'', 3 / 2::real), (8, ''1.5'', 3 / 2), (7, ''2.0'', 2), (8, ''2.0'', 2)]) 7 \<and>
   2 * 1 \<le> count_list (map fst [(7::nat, ''1.5'', 3 / 2::real), (8, ''1.5'', 3 / 2), (7, ''2.0'', 2), (8, ''2.0'', 2)]) 8 \<and>
   (\<exists>ws' s' new.
      run_threads b64 ''c'' ''t''
        [(7, ''1.5'', 3 / 2), (8, ''1.5'', 3 / 2), (7, ''2.0'', 2), (8, ''2.0'', 2)]
        (\<lambda>i. if i \<in> {7, 8} then Idle 1 else Idle 0) fresh = Inr (ws', s') \<and>
      ws' 7 = Idle 0 \<and> ws' 8 = Idle 0 \<and>
      bucket s' ''c'' ''t'' = new \<and> length new = 2)"
proof -
  let ?sched = "[(7::nat, ''1.5'', 3 / 2::real), (8, ''1.5'', 3 / 2), (7, ''2.0'', 2), (8, ''2.0'', 2)]"
  have f: "finite {7, 8::nat}" by simp
  have e: "enabled fresh" by (simp add: fresh_def)
  have c1: "2 * 1 \<le> count_list (map fst ?sched) 7" by simp
  have c2: "2 * 1 \<le> count_list (map fst ?sched) 8" by simp
  from c1 c2 have c: "\<forall>i\<in>{7, 8}. 2 * 1 \<le> count_list (map fst ?sched) i" by blast
  have b: "bucket fresh ''c'' ''t'' = []" by (simp add: bucket_def fresh_def)
  from threads_record_every_timer [OF f e c, of b64 "''c''" "''t''"]
  obtain ws' s' new where
    "run_threads b64 ''c'' ''t'' ?sched (\<lambda>i. if i \<in> {7, 8} then Idle 1 else Idle 0) fresh = Inr (ws', s')"
    "\<forall>i. ws' i = Idle 0"
    "bucket s' ''c'' ''t'' = bucket fresh ''c'' ''t'' @ new"
    "length new = card {7, 8::nat} * 1"
    by blast
  then have "\<exists>ws' s' new.
      run_threads b64 ''c'' ''t'' ?sched (\<lambda>i. if i \<in> {7, 8} then Idle 1 else Idle 0) fresh = Inr (ws', s') \<and>
      ws' 7 = Idle 0 \<and> ws' 8 = Idle 0 \<and>
      bucket s' ''c'' ''t'' = new \<and> length new = 2"
    using b by simp
  with f e c1 c2 show ?thesis by blast
qed

end
